theory Spec2Isabelle
  imports Main "HOL-Library.Signed_Division" "HOL-Library.Sublist"
begin

section \<open>transfer-logs.c: memory, arrays and C integers\<close>

text \<open>
  The program is C. An \<open>int\<close> is modelled as an Isabelle \<open>int\<close>: the functions below
  compare, copy and subtract timestamps and add small counters; signed overflow is
  undefined in C and is not given a meaning here. An array obtained from \<open>calloc\<close> is a
  list of its elements, all zero at first. Every indexed access is checked against the
  length of the list: an access outside the block is the error \<open>OutOfBounds\<close>, the
  dereference of a null pointer is \<open>NullPointer\<close>, a negative length handed to
  \<open>calloc\<close> and \<open>fread\<close> is \<open>BadLength\<close>, and \<open>IoError\<close> is the null result the
  loaders return, after their message, when \<open>fopen\<close> fails.
\<close>

datatype error = OutOfBounds | NullPointer | BadLength | IoError

definition rd :: "'a list \<Rightarrow> int \<Rightarrow> error + 'a" where
  "rd arr i = (if 0 \<le> i \<and> i < int (length arr) then Inr (arr ! nat i) else Inl OutOfBounds)"

definition wr :: "'a list \<Rightarrow> int \<Rightarrow> 'a \<Rightarrow> error + 'a list" where
  "wr arr i v = (if 0 \<le> i \<and> i < int (length arr) then Inr (arr[nat i := v]) else Inl OutOfBounds)"

section \<open>The data model\<close>

text \<open>
  \<open>dat_sub_s\<close> describes one archive (one retention granularity) and \<open>dat_s\<close> the
  device with its archives, as the two structs of the source do. A \<open>double\<close> is only read
  and stored, never computed with, and is kept as the number its eight bytes spell
  (\<open>value_bits\<close>, \<open>divider_bits\<close> for the fields \<open>value\<close> and \<open>divider\<close>). A
  character buffer is the list of its bytes; the null pointer and the buffer of length
  zero are both the empty list. The pointer \<open>next\<close> is the index, in \<open>subset\<close>, of the
  record it points to (\<open>next_sub\<close>). The array \<open>subset[N_SUBSETS]\<close> is a list of
  \<open>N_SUBSETS\<close> entries, \<open>None\<close> for a null pointer.
\<close>

record dat_sub_s =
  unk_0 :: int
  unk_1 :: int
  unk_2 :: int
  value_bits :: nat
  divider_bits :: nat
  timestamp_0 :: int
  timestamp_1 :: int
  minSamplesPerBin :: int
  binL_len :: int
  binLength :: string
  file_offset :: int
  n_samples :: int
  unk_3 :: int
  int_len :: int
  interval :: string
  cons_len :: int
  consolidator :: string
  next_sub :: "nat option"

record dat_s =
  magic :: string
  devUuid_len :: int
  deviceUuid :: string
  rrd_device_name :: string
  devVar_len :: int
  deviceVar :: string
  devSvc_len :: int
  deviceSvc :: string
  sampleT_len :: int
  sampleType :: string
  n_sets :: int
  subset :: "dat_sub_s option list"

definition N_SUBSETS :: nat where
  "N_SUBSETS = 4"

definition MAGIC :: string where
  "MAGIC = ''hcb_rrd_09082011A''"

text \<open>
  \<open>strcmp\<close> reads a buffer up to its first NUL byte. The buffers of the decoder are
  allocated with exactly the length the file declares and are not terminated, so on a
  buffer without a NUL byte \<open>strcmp\<close> goes on into the memory behind it; the model takes
  the C string of a buffer to end where the buffer ends.
\<close>

definition c_str :: "string \<Rightarrow> string" where
  "c_str buf = takeWhile (\<lambda>c. c \<noteq> CHR 0x00) buf"

definition is_integer :: "dat_s \<Rightarrow> bool" where
  "is_integer data = (c_str (sampleType data) = ''integer'')"

section \<open>create\_rra\_time: the timestamps of the slots\<close>

text \<open>
  \<^verbatim>\<open>int* create_rra_time( dat_s* data, int subset )\<close>; \<open>s\<close> is the record
  \<open>data->subset[subset]\<close>. The two \<open>do ... while\<close> loops run their body once before
  they test: \<open>fill_down\<close> is the first (\<open>time_rra[j-1] = time_rra[j] - interval; j--\<close>
  while \<open>j > 0\<close>), \<open>fill_wrap\<close> the second (\<open>j--; time_rra[j] = time_rra[j+1] - interval\<close>
  while \<open>j > file_offset + 1\<close>).
\<close>

function fill_down :: "int \<Rightarrow> int list \<Rightarrow> int \<Rightarrow> error + int list" where
  "fill_down iv t j =
     (case rd t j of Inl e \<Rightarrow> Inl e | Inr x \<Rightarrow>
       (case wr t (j - 1) (x - iv) of Inl e \<Rightarrow> Inl e | Inr t' \<Rightarrow>
          if j - 1 > 0 then fill_down iv t' (j - 1) else Inr t'))"
  by pat_completeness auto
termination
  by (relation "measure (\<lambda>(iv, t, j). nat j)") auto

function fill_wrap :: "int \<Rightarrow> int \<Rightarrow> int list \<Rightarrow> int \<Rightarrow> error + int list" where
  "fill_wrap iv fo t j =
     (case rd t (j - 1 + 1) of Inl e \<Rightarrow> Inl e | Inr x \<Rightarrow>
       (case wr t (j - 1) (x - iv) of Inl e \<Rightarrow> Inl e | Inr t' \<Rightarrow>
          if j - 1 > fo + 1 then fill_wrap iv fo t' (j - 1) else Inr t'))"
  by pat_completeness auto
termination
  by (relation "measure (\<lambda>(iv, fo, t, j). nat (j - fo))") auto

declare fill_down.simps [simp del] fill_wrap.simps [simp del]

definition create_rra_time :: "dat_sub_s \<Rightarrow> error + int list" where
  "create_rra_time s =
     (let iv = timestamp_1 s - timestamp_0 s;
          time_rra = replicate (nat (n_samples s)) (0::int)
      in case wr time_rra (file_offset s) (timestamp_1 s) of Inl e \<Rightarrow> Inl e | Inr t0 \<Rightarrow>
         (case fill_down iv t0 (file_offset s) of Inl e \<Rightarrow> Inl e | Inr t1 \<Rightarrow>
         (case rd t1 0 of Inl e \<Rightarrow> Inl e | Inr x \<Rightarrow>
         (case wr t1 (n_samples s - 1) (x - iv) of Inl e \<Rightarrow> Inl e | Inr t2 \<Rightarrow>
            fill_wrap iv (file_offset s) t2 (n_samples s - 1)))))"

section \<open>search: the pivoted binary search\<close>

text \<open>
  \<^verbatim>\<open>int search( int arr[], int l, int h, int key )\<close>. The quotient \<open>( l + h ) / 2\<close>
  truncates towards zero (\<open>sdiv\<close>). The second operand of \<open>&&\<close> is evaluated only when
  the first holds, so \<open>arr[h]\<close> is read only when \<open>key >= arr[mid]\<close>.
\<close>

lemma mid_in_window:
  "l \<le> h \<Longrightarrow> 0 \<le> (l + h) sdiv 2 \<Longrightarrow> l \<le> (l + h) sdiv (2::int) \<and> (l + h) sdiv 2 \<le> h"
  by (auto simp: signed_divide_int_def sgn_if split: if_splits)

function search :: "int list \<Rightarrow> int \<Rightarrow> int \<Rightarrow> int \<Rightarrow> error + int" where
  "search arr l h key =
     (if l > h then Inr (- 1)
      else (let mid = (l + h) sdiv 2 in
        (case rd arr mid of Inl e \<Rightarrow> Inl e | Inr am \<Rightarrow>
          if am = key then Inr mid
          else (case rd arr l of Inl e \<Rightarrow> Inl e | Inr al \<Rightarrow>
            if al \<le> am then
              (if key \<ge> al \<and> key \<le> am then search arr l (mid - 1) key
               else search arr (mid + 1) h key)
            else if key \<ge> am then
              (case rd arr h of Inl e \<Rightarrow> Inl e | Inr ah \<Rightarrow>
                 if key \<le> ah then search arr (mid + 1) h key
                 else search arr l (mid - 1) key)
            else search arr l (mid - 1) key))))"
  by pat_completeness auto
termination
  apply (relation "measure (\<lambda>(arr, l, h, key). nat (h - l + 1))")
       apply simp
  using mid_in_window apply (auto simp: rd_def split: if_splits)
  done

declare search.simps [simp del]

text \<open>
  A rotated-sorted array of distinct integers: some rotation of it is strictly
  increasing.
\<close>

definition rotated_sorted :: "int list \<Rightarrow> bool" where
  "rotated_sorted arr = list_ex (\<lambda>k. sorted_wrt (<) (rotate k arr)) [0..<Suc (length arr)]"

text \<open>
  The same property of a window \<open>arr[l..h]\<close>, as the search uses it: the window is an
  increasing run up to \<open>p\<close>, then a second increasing run all of whose elements are
  smaller than those of the first.
\<close>

definition rot_win :: "int list \<Rightarrow> int \<Rightarrow> int \<Rightarrow> bool" where
  "rot_win arr l h \<longleftrightarrow>
     (\<exists>p. l \<le> p \<and> p \<le> h \<and>
        (\<forall>i j. l \<le> i \<and> i < j \<and> j \<le> p \<longrightarrow> arr ! nat i < arr ! nat j) \<and>
        (\<forall>i j. p < i \<and> i < j \<and> j \<le> h \<longrightarrow> arr ! nat i < arr ! nat j) \<and>
        (\<forall>i j. l \<le> i \<and> i \<le> p \<and> p < j \<and> j \<le> h \<longrightarrow> arr ! nat j < arr ! nat i))"

section \<open>sort\_data\_for\_rra: the merge\<close>

text \<open>
  \<^verbatim>\<open>void* sort_data_for_rra( dat_s* data, int subset, void* data_csv, void* data_rra,
  int* time_csv, int* time_rra )\<close>; \<open>s\<close> is the record \<open>data->subset[subset]\<close>. The
  function has one branch for \<open>int\<close> samples and one for \<open>double\<close> samples, chosen by
  \<open>data->sampleType\<close>; the two branches perform the same steps and only copy the
  samples, so the model has one definition for any type of sample \<open>'v\<close>. \<open>copy_rra\<close> is
  the first loop, which fills the output with the destination's values, and
  \<open>merge_loop\<close> the second. The operator \<open>&\<close> of the test evaluates both operands, which
  read the same element \<open>time_csv[i]\<close>; the key \<open>time_rra[i]\<close> is read before the call
  of \<open>search\<close>, whose upper bound is \<open>n_samples\<close>.
\<close>

function copy_rra :: "int \<Rightarrow> 'v list \<Rightarrow> 'v list \<Rightarrow> int \<Rightarrow> error + 'v list" where
  "copy_rra n data_rra tmp i =
     (if i < n then
        (case rd data_rra i of Inl e \<Rightarrow> Inl e | Inr v \<Rightarrow>
          (case wr tmp i v of Inl e \<Rightarrow> Inl e | Inr tmp' \<Rightarrow> copy_rra n data_rra tmp' (i + 1)))
      else Inr tmp)"
  by pat_completeness auto
termination
  by (relation "measure (\<lambda>(n, data_rra, tmp, i). nat (n - i))") auto

function merge_loop ::
  "int \<Rightarrow> int \<Rightarrow> int \<Rightarrow> 'v list \<Rightarrow> int list \<Rightarrow> int list \<Rightarrow> 'v list \<Rightarrow> int \<Rightarrow> error + 'v list" where
  "merge_loop n t_min t_max data_csv time_csv time_rra tmp i =
     (if i < n then
        (case rd time_csv i of Inl e \<Rightarrow> Inl e | Inr c \<Rightarrow>
          if c \<ge> t_min \<and> c \<le> t_max then
            (case rd time_rra i of Inl e \<Rightarrow> Inl e | Inr key \<Rightarrow>
              (case search time_csv 0 n key of Inl e \<Rightarrow> Inl e | Inr index \<Rightarrow>
                if index \<ge> 0 then
                  (case rd data_csv index of Inl e \<Rightarrow> Inl e | Inr v \<Rightarrow>
                    (case wr tmp i v of Inl e \<Rightarrow> Inl e | Inr tmp' \<Rightarrow>
                       merge_loop n t_min t_max data_csv time_csv time_rra tmp' (i + 1)))
                else merge_loop n t_min t_max data_csv time_csv time_rra tmp (i + 1)))
          else merge_loop n t_min t_max data_csv time_csv time_rra tmp (i + 1))
      else Inr tmp)"
  by pat_completeness auto
termination
  by (relation "measure (\<lambda>(n, t_min, t_max, data_csv, time_csv, time_rra, tmp, i). nat (n - i))") auto

declare copy_rra.simps [simp del] merge_loop.simps [simp del]

definition sort_data_for_rra ::
  "dat_sub_s \<Rightarrow> 'v::zero list \<Rightarrow> 'v list \<Rightarrow> int list \<Rightarrow> int list \<Rightarrow> error + 'v list" where
  "sort_data_for_rra s data_csv data_rra time_csv time_rra =
     (case copy_rra (n_samples s) data_rra (replicate (nat (n_samples s)) 0) 0 of
        Inl e \<Rightarrow> Inl e
      | Inr tmp \<Rightarrow>
         (case rd time_rra (file_offset s + 1) of Inl e \<Rightarrow> Inl e | Inr t_min \<Rightarrow>
         (case rd time_rra (file_offset s) of Inl e \<Rightarrow> Inl e | Inr t_max \<Rightarrow>
            merge_loop (n_samples s) t_min t_max data_csv time_csv time_rra tmp 0)))"

text \<open>
  Two notions used to state what the merge does. \<open>in_window s time_rra t\<close>: the
  timestamp \<open>t\<close> lies between the destination timestamps of the slots
  \<open>file_offset + 1\<close> and \<open>file_offset\<close>. \<open>found_at s time_csv key\<close>: the index the
  merge's call of \<open>search\<close> returns for \<open>key\<close>, if it returns one.
\<close>

definition in_window :: "dat_sub_s \<Rightarrow> int list \<Rightarrow> int \<Rightarrow> bool" where
  "in_window s time_rra t =
     (time_rra ! nat (file_offset s + 1) \<le> t \<and> t \<le> time_rra ! nat (file_offset s))"

definition found_at :: "dat_sub_s \<Rightarrow> int list \<Rightarrow> int \<Rightarrow> nat option" where
  "found_at s time_csv key =
     (case search time_csv 0 (n_samples s) key of
        Inr k \<Rightarrow> if 0 \<le> k then Some (nat k) else None
      | Inl e \<Rightarrow> None)"

text \<open>
  A descriptor with the given reference timestamps, file offset and capacity, its
  other fields zero or empty; the concrete inputs below are built from it.
\<close>

definition buffer_of :: "int \<Rightarrow> int \<Rightarrow> int \<Rightarrow> int \<Rightarrow> dat_sub_s" where
  "buffer_of t0 t1 fo n =
     \<lparr>unk_0 = 0, unk_1 = 0, unk_2 = 0, value_bits = 0, divider_bits = 0,
      timestamp_0 = t0, timestamp_1 = t1, minSamplesPerBin = 0, binL_len = 0, binLength = [],
      file_offset = fo, n_samples = n, unk_3 = 0, int_len = 0, interval = [], cons_len = 0,
      consolidator = [], next_sub = None\<rparr>"

section \<open>Files: fread on a stream of bytes\<close>

text \<open>
  An open binary file is the list of its bytes that have not been read yet (a byte is
  a \<open>char\<close>). Multi-byte numbers are little-endian, as on the device. \<open>fread\<close> of one
  element of 4 or 8 bytes returns the number of whole elements it read, \<open>1\<close> or \<open>0\<close>.
  When fewer bytes are left than the element has, it returns \<open>0\<close>, the stream is at its
  end, and the bytes that were left have gone into the low end of the destination,
  which was zero before (every destination here comes from \<open>calloc\<close>); C leaves the
  value of such a partial element indeterminate and the model takes what the GNU library
  stores. \<open>fread\<close> of \<open>n\<close> single bytes returns how many it read; the buffer of \<open>n\<close>
  bytes, zero before, holds them.
\<close>

definition le_nat :: "string \<Rightarrow> nat" where
  "le_nat bs = foldr (\<lambda>c n. of_char c + 256 * n) bs 0"

definition c_int :: "string \<Rightarrow> int" where
  "c_int bs = (let u = int (le_nat bs) in if u < 2147483648 then u else u - 4294967296)"

definition fread_int :: "string \<Rightarrow> int \<times> int \<times> string" where
  "fread_int fp = (if 4 \<le> length fp then 1 else 0, c_int (take 4 fp), drop 4 fp)"

definition fread_double :: "string \<Rightarrow> int \<times> nat \<times> string" where
  "fread_double fp = (if 8 \<le> length fp then 1 else 0, le_nat (take 8 fp), drop 8 fp)"

definition fread_bytes :: "nat \<Rightarrow> string \<Rightarrow> int \<times> string \<times> string" where
  "fread_bytes n fp =
     (int (min n (length fp)), take n fp @ replicate (n - length fp) (CHR 0x00), drop n fp)"

text \<open>
  The bytes of an \<open>int\<close>, of a \<open>double\<close> with the given bit pattern, and of a string
  with its 4-byte length in front, as a file holds them (section 6 of the specification:
  little-endian, strings not terminated). They are used to state what a file contains.
\<close>

definition enc_nat :: "nat \<Rightarrow> nat \<Rightarrow> string" where
  "enc_nat k u = map (\<lambda>i. char_of (u div 256 ^ i)) [0..<k]"

definition enc_int :: "int \<Rightarrow> string" where
  "enc_int x = enc_nat 4 (nat (x mod 4294967296))"

definition enc_double :: "nat \<Rightarrow> string" where
  "enc_double b = enc_nat 8 b"

definition enc_string :: "string \<Rightarrow> string" where
  "enc_string str = enc_int (int (length str)) @ str"

definition is_int32 :: "int \<Rightarrow> bool" where
  "is_int32 x = (- 2147483648 \<le> x \<and> x < 2147483648)"

section \<open>read\_rra\_file: the archive-native load\<close>

text \<open>
  \<^verbatim>\<open>void* read_rra_file( char* rra_path, dat_s* data, int subset )\<close>. The file is
  given by its content, \<open>None\<close> when \<open>fopen\<close> fails. The result points to an array of
  \<open>int\<close> or of \<open>double\<close>, by the device's sample type. The loop stores the element it
  reads into slot \<open>j\<close> and does not look at what \<open>fread\<close> returns.
\<close>

datatype samples = IntSamples "int list" | DbleSamples "nat list"

function rra_int_loop :: "int \<Rightarrow> int list \<Rightarrow> int \<Rightarrow> string \<Rightarrow> error + int list" where
  "rra_int_loop n int_rra j fp =
     (if j < n then
        (case fread_int fp of (c, v, fp') \<Rightarrow>
          (case wr int_rra j v of Inl e \<Rightarrow> Inl e | Inr a \<Rightarrow> rra_int_loop n a (j + 1) fp'))
      else Inr int_rra)"
  by pat_completeness auto
termination
  by (relation "measure (\<lambda>(n, int_rra, j, fp). nat (n - j))") auto

function rra_dble_loop :: "int \<Rightarrow> nat list \<Rightarrow> int \<Rightarrow> string \<Rightarrow> error + nat list" where
  "rra_dble_loop n dble_rra j fp =
     (if j < n then
        (case fread_double fp of (c, v, fp') \<Rightarrow>
          (case wr dble_rra j v of Inl e \<Rightarrow> Inl e | Inr a \<Rightarrow> rra_dble_loop n a (j + 1) fp'))
      else Inr dble_rra)"
  by pat_completeness auto
termination
  by (relation "measure (\<lambda>(n, dble_rra, j, fp). nat (n - j))") auto

declare rra_int_loop.simps [simp del] rra_dble_loop.simps [simp del]

definition read_rra_file :: "string option \<Rightarrow> dat_s \<Rightarrow> dat_sub_s \<Rightarrow> error + samples" where
  "read_rra_file rra_file data s =
     (case rra_file of
        None \<Rightarrow> Inl IoError
      | Some fp \<Rightarrow>
          if is_integer data then
            (case rra_int_loop (n_samples s) (replicate (nat (n_samples s)) 0) 0 fp of
               Inl e \<Rightarrow> Inl e | Inr a \<Rightarrow> Inr (IntSamples a))
          else
            (case rra_dble_loop (n_samples s) (replicate (nat (n_samples s)) 0) 0 fp of
               Inl e \<Rightarrow> Inl e | Inr a \<Rightarrow> Inr (DbleSamples a)))"

text \<open>
  A payload file that holds the given elements and nothing else.
\<close>

definition ints_file :: "int list \<Rightarrow> string" where
  "ints_file xs = concat (map enc_int xs)"

definition dbles_file :: "nat list \<Rightarrow> string" where
  "dbles_file ds = concat (map enc_double ds)"

section \<open>read\_csv\_time and read\_csv\_data: the import load\<close>

text \<open>
  \<^verbatim>\<open>int* read_csv_time( char* csv_path, dat_s* data, int subset, int max_time )\<close> and
  \<^verbatim>\<open>void* read_csv_data( char* csv_path, dat_s* data, int subset, int t_max )\<close> read
  the same text file line by line with \<open>fgets\<close> and \<open>sscanf\<close>. The file is given by its
  content, \<open>None\<close> when \<open>fopen\<close> fails.

  \<open>fgets( line, LINE_LEN, fp )\<close> reads up to and including the next newline, at most
  \<open>LINE_LEN - 1\<close> characters, and returns \<open>NULL\<close> when no character is left.
  \<open>fgets_all n cur fp\<close> is the list of the strings the successive calls return; \<open>cur\<close>
  holds the characters of the line being read.
\<close>

definition LINE_LEN :: nat where
  "LINE_LEN = 1024"

fun fgets_all :: "nat \<Rightarrow> string \<Rightarrow> string \<Rightarrow> string list" where
  "fgets_all n cur [] = (if cur = [] then [] else [cur])"
| "fgets_all n cur (c # fp) =
     (if c = CHR 0x0A \<or> Suc (length cur) = n - 1 then (cur @ [c]) # fgets_all n [] fp
      else fgets_all n (cur @ [c]) fp)"

text \<open>
  \<open>sscanf\<close> reads the line as a C string, up to its first zero byte. The directive
  \<open>%d\<close> skips white space, takes an optional sign and then the decimal digits that
  follow; without a digit it fails, \<open>sscanf\<close> stops there and the variables of this and
  of the later directives keep the values they had, those of the previous line. The
  digits are converted as the GNU library does on a target with a 64-bit \<open>long\<close>:
  \<open>strtol\<close>, which stops at \<open>LONG_MIN\<close> and \<open>LONG_MAX\<close>, and then the conversion of the
  \<open>long\<close> to \<open>int\<close>, which keeps the low 32 bits (C leaves the result for a number
  outside the range of \<open>int\<close> undefined). \<open>scan_d\<close> returns the value and the text behind
  the digits.
\<close>

definition isspace :: "char \<Rightarrow> bool" where
  "isspace c = (c \<in> set [CHR 0x20, CHR 0x09, CHR 0x0A, CHR 0x0B, CHR 0x0C, CHR 0x0D])"

definition isdigit :: "char \<Rightarrow> bool" where
  "isdigit c = (48 \<le> (of_char c :: nat) \<and> (of_char c :: nat) \<le> 57)"

definition digits_val :: "string \<Rightarrow> int" where
  "digits_val ds = foldl (\<lambda>a c. 10 * a + (int (of_char c) - 48)) 0 ds"

definition strtol_range :: "int \<Rightarrow> int" where
  "strtol_range v = max (- 9223372036854775808) (min 9223372036854775807 v)"

definition long_to_int :: "int \<Rightarrow> int" where
  "long_to_int v = (v + 2147483648) mod 4294967296 - 2147483648"

definition scan_d :: "string \<Rightarrow> (int \<times> string) option" where
  "scan_d str =
     (let s1 = dropWhile isspace str;
          neg = (s1 \<noteq> [] \<and> hd s1 = CHR ''-'');
          s2 = (if s1 \<noteq> [] \<and> (hd s1 = CHR ''-'' \<or> hd s1 = CHR ''+'') then tl s1 else s1);
          ds = takeWhile isdigit s2
      in if ds = [] then None
         else Some (long_to_int (strtol_range (if neg then - digits_val ds else digits_val ds)),
                    dropWhile isdigit s2))"

text \<open>
  \<open>sscanf( line, "%d,%s", &time_tmp, dum )\<close> in \<open>read_csv_time\<close>: only the first
  directive stores into \<open>time_tmp\<close>; \<open>dum\<close> is never looked at.
  \<open>sscanf( line, "%d,%d\n", &t, &int_tmp )\<close> and
  \<open>sscanf( line, "%d,%lf\n", &t, &dble_tmp )\<close> in \<open>read_csv_data\<close>: the second
  conversion is reached when the character behind the first number is a comma.
  \<open>sscanf_row conv str (t, tmp)\<close> gives the two variables after the call; \<open>conv\<close> is the
  second conversion. For \<open>%d\<close> it is \<open>conv_d\<close>. The conversion \<open>%lf\<close> is the C library's
  \<open>strtod\<close>, which is not part of this program: the model takes it as the function
  \<open>conv_lf\<close> from the text at the directive to the bit pattern of the \<open>double\<close>, \<open>None\<close>
  when no number is there.
\<close>

definition sscanf_time :: "string \<Rightarrow> int \<Rightarrow> int" where
  "sscanf_time str time_tmp = (case scan_d str of None \<Rightarrow> time_tmp | Some (v, r) \<Rightarrow> v)"

definition sscanf_row :: "(string \<Rightarrow> 'v option) \<Rightarrow> string \<Rightarrow> int \<times> 'v \<Rightarrow> int \<times> 'v" where
  "sscanf_row conv str tv =
     (case scan_d str of
        None \<Rightarrow> tv
      | Some (t, r) \<Rightarrow>
          if r \<noteq> [] \<and> hd r = CHR '',''
          then (case conv (tl r) of None \<Rightarrow> (t, snd tv) | Some v \<Rightarrow> (t, v))
          else (t, snd tv))"

definition conv_d :: "string \<Rightarrow> int option" where
  "conv_d str = map_option fst (scan_d str)"

text \<open>
  The two loops. Both functions allocate \<open>n_samples\<close> zeroed elements and store at index
  \<open>j\<close>, which they never compare with \<open>n_samples\<close>, whenever the timestamp variable is
  \<open><= max_time\<close> after the \<open>sscanf\<close> of a line, whether or not that call stored into it.
  The variables \<open>time_tmp\<close>, \<open>t\<close>, \<open>int_tmp\<close> and \<open>dble_tmp\<close> are not initialised: the
  values they hold at the start are arguments of the model.
\<close>

fun csv_time_loop :: "int \<Rightarrow> int list \<Rightarrow> int \<Rightarrow> int \<Rightarrow> string list \<Rightarrow> error + int list" where
  "csv_time_loop max_time time_csv j time_tmp [] = Inr time_csv"
| "csv_time_loop max_time time_csv j time_tmp (line # lines) =
     (if sscanf_time (c_str line) time_tmp \<le> max_time then
        (case wr time_csv j (sscanf_time (c_str line) time_tmp) of
           Inl e \<Rightarrow> Inl e
         | Inr a \<Rightarrow>
             csv_time_loop max_time a (j + 1) (sscanf_time (c_str line) time_tmp) lines)
      else csv_time_loop max_time time_csv j (sscanf_time (c_str line) time_tmp) lines)"

definition read_csv_time :: "string option \<Rightarrow> dat_sub_s \<Rightarrow> int \<Rightarrow> int \<Rightarrow> error + int list" where
  "read_csv_time csv_file s max_time time_tmp =
     (case csv_file of
        None \<Rightarrow> Inl IoError
      | Some fp \<Rightarrow>
          csv_time_loop max_time (replicate (nat (n_samples s)) 0) 0 time_tmp
            (fgets_all LINE_LEN [] fp))"

fun csv_data_loop ::
  "(string \<Rightarrow> 'v option) \<Rightarrow> int \<Rightarrow> 'v list \<Rightarrow> int \<Rightarrow> int \<times> 'v \<Rightarrow> string list \<Rightarrow> error + 'v list" where
  "csv_data_loop conv t_max data_csv j tv [] = Inr data_csv"
| "csv_data_loop conv t_max data_csv j tv (line # lines) =
     (if fst (sscanf_row conv (c_str line) tv) \<le> t_max then
        (case wr data_csv j (snd (sscanf_row conv (c_str line) tv)) of
           Inl e \<Rightarrow> Inl e
         | Inr a \<Rightarrow>
             csv_data_loop conv t_max a (j + 1) (sscanf_row conv (c_str line) tv) lines)
      else csv_data_loop conv t_max data_csv j (sscanf_row conv (c_str line) tv) lines)"

definition read_csv_data ::
  "(string \<Rightarrow> nat option) \<Rightarrow> string option \<Rightarrow> dat_s \<Rightarrow> dat_sub_s \<Rightarrow> int \<Rightarrow> int \<Rightarrow> int \<Rightarrow> nat
     \<Rightarrow> error + samples" where
  "read_csv_data conv_lf csv_file data s t_max t int_tmp dble_tmp =
     (case csv_file of
        None \<Rightarrow> Inl IoError
      | Some fp \<Rightarrow>
          if is_integer data then
            (case csv_data_loop conv_d t_max (replicate (nat (n_samples s)) 0) 0 (t, int_tmp)
                    (fgets_all LINE_LEN [] fp) of
               Inl e \<Rightarrow> Inl e | Inr a \<Rightarrow> Inr (IntSamples a))
          else
            (case csv_data_loop conv_lf t_max (replicate (nat (n_samples s)) 0) 0 (t, dble_tmp)
                    (fgets_all LINE_LEN [] fp) of
               Inl e \<Rightarrow> Inl e | Inr a \<Rightarrow> Inr (DbleSamples a)))"

text \<open>
  An import file for \<open>int\<close> samples (section 6 of the specification): one line \<open>t,v\<close>
  for each row, the two numbers in decimal, every line ended by a newline. \<open>dec\<close> is
  the decimal text of an integer. They are used to state what a file contains.
\<close>

fun dec_digits :: "nat \<Rightarrow> nat \<Rightarrow> string" where
  "dec_digits 0 n = []"
| "dec_digits (Suc k) n =
     (if n < 10 then [char_of (48 + n)] else dec_digits k (n div 10) @ [char_of (48 + n mod 10)])"

definition dec :: "int \<Rightarrow> string" where
  "dec x = (if x < 0 then CHR ''-'' # dec_digits (Suc (nat (- x))) (nat (- x))
            else dec_digits (Suc (nat x)) (nat x))"

definition csv_line :: "int \<times> int \<Rightarrow> string" where
  "csv_line row = dec (fst row) @ [CHR '',''] @ dec (snd row) @ [CHR 0x0A]"

definition csv_text :: "(int \<times> int) list \<Rightarrow> string" where
  "csv_text rows = concat (map csv_line rows)"

text \<open>
  The rows an import keeps under a cutoff, in file order.
\<close>

definition kept_rows :: "int \<Rightarrow> (int \<times> 'v) list \<Rightarrow> (int \<times> 'v) list" where
  "kept_rows cutoff rows = filter (\<lambda>(t, v). t \<le> cutoff) rows"

section \<open>read\_dat\_file: the metadata decoder\<close>

text \<open>
  \<^verbatim>\<open>dat_s *read_dat_file( char * dir )\<close>. The file is given by its content. The
  result is the \<open>dat_s\<close> record together with the lines the function prints.

  A string of the header is a 4-byte length and that many bytes, read into a buffer
  of exactly that length (\<open>calloc\<close>, so a short read leaves zero bytes at the end). A
  negative length makes \<open>calloc\<close> fail and \<open>fread\<close> store through the null pointer:
  \<open>BadLength\<close>. In a buffer record the buffer of a string is allocated only when its
  length was read (\<open>if ( cnt2 )\<close>), and both reads are counted in \<open>cnt\<close>; when the
  length was not read the stream is at its end and the second \<open>fread\<close> reads nothing.
\<close>

definition read_string :: "string \<Rightarrow> error + (int \<times> string \<times> string)" where
  "read_string fp =
     (case fread_int fp of (c, len, fp1) \<Rightarrow>
        if len < 0 then Inl BadLength
        else (case fread_bytes (nat len) fp1 of (k, buf, fp2) \<Rightarrow> Inr (len, buf, fp2)))"

definition read_counted_string :: "string \<Rightarrow> error + (int \<times> int \<times> string \<times> string)" where
  "read_counted_string fp =
     (case fread_int fp of (cnt2, len, fp1) \<Rightarrow>
        if cnt2 = 0 then Inr (0, len, [], fp1)
        else if len < 0 then Inl BadLength
        else (case fread_bytes (nat len) fp1 of (k, buf, fp2) \<Rightarrow> Inr (cnt2 + k, len, buf, fp2)))"

text \<open>
  One buffer record: the fields of \<open>data->subset[j]\<close> in the order the loop body
  reads them, the counter \<open>cnt\<close> and the rest of the stream. \<open>read_lead\<close> reads the
  three leading integers, or the two leading doubles, which are not counted, and sets
  the fields of the other kind to zero.
\<close>

definition read_lead :: "bool \<Rightarrow> string \<Rightarrow> int \<times> int \<times> int \<times> nat \<times> nat \<times> string" where
  "read_lead integer fp =
     (if integer then
        (case fread_int fp of (c0, u0, f1) \<Rightarrow>
         case fread_int f1 of (c1, u1, f2) \<Rightarrow>
         case fread_int f2 of (c2, u2, f3) \<Rightarrow> (u0, u1, u2, 0, 0, f3))
      else
        (case fread_double fp of (c0, v, f1) \<Rightarrow>
         case fread_double f1 of (c1, d, f2) \<Rightarrow> (0, 0, 0, v, d, f2)))"

definition read_subset :: "bool \<Rightarrow> string \<Rightarrow> error + (dat_sub_s \<times> int \<times> string)" where
  "read_subset integer fp =
     (case read_lead integer fp of (u0, u1, u2, v, d, fa) \<Rightarrow>
      case fread_int fa of (c1, t0, fp1) \<Rightarrow>
      case fread_int fp1 of (c2, t1, fp2) \<Rightarrow>
      case fread_int fp2 of (c3, msb, fp3) \<Rightarrow>
      case read_counted_string fp3 of Inl e \<Rightarrow> Inl e | Inr (cb, bl, bs, fp4) \<Rightarrow>
      case fread_int fp4 of (c4, fo, fp5) \<Rightarrow>
      case fread_int fp5 of (c5, ns, fp6) \<Rightarrow>
      case fread_int fp6 of (c6, u3, fp7) \<Rightarrow>
      case read_counted_string fp7 of Inl e \<Rightarrow> Inl e | Inr (ci, il, is, fp8) \<Rightarrow>
      case read_counted_string fp8 of Inl e \<Rightarrow> Inl e | Inr (cc, cl, cs, fp9) \<Rightarrow>
        Inr (\<lparr>unk_0 = u0, unk_1 = u1, unk_2 = u2, value_bits = v, divider_bits = d,
              timestamp_0 = t0, timestamp_1 = t1, minSamplesPerBin = msb,
              binL_len = bl, binLength = bs, file_offset = fo, n_samples = ns, unk_3 = u3,
              int_len = il, interval = is, cons_len = cl, consolidator = cs,
              next_sub = None\<rparr>,
             c1 + c2 + c3 + cb + c4 + c5 + c6 + ci + cc, fp9))"

text \<open>
  Stores through \<open>data->subset[k]->next\<close>: the index is checked against the array of
  \<open>N_SUBSETS\<close> pointers and the pointer against null.
\<close>

definition set_next :: "dat_sub_s option list \<Rightarrow> int \<Rightarrow> nat option \<Rightarrow> error + dat_sub_s option list" where
  "set_next subs k nx =
     (case rd subs k of
        Inl e \<Rightarrow> Inl e
      | Inr None \<Rightarrow> Inl NullPointer
      | Inr (Some r) \<Rightarrow> Inr (subs[nat k := Some (r\<lparr>next_sub := nx\<rparr>)]))"

text \<open>
  \<open>if ( j > 0 ) data->subset[j-1]->next = data->subset[j]\<close>.
\<close>

definition link_prev :: "dat_sub_s option list \<Rightarrow> nat \<Rightarrow> error + dat_sub_s option list" where
  "link_prev subs j = (if j > 0 then set_next subs (int j - 1) (Some j) else Inr subs)"

definition corrupt_message :: string where
  "corrupt_message = ''dat file is partly corrupted, continuing ...''"

definition bad_magic_message :: string where
  "bad_magic_message = ''Bad magic number''"

text \<open>
  The \<open>do ... while ( done == 0 )\<close> loop; a call is one run of its body with the
  given \<open>j\<close>. The body allocates \<open>data->subset[j]\<close>, sets \<open>n_sets\<close> and links the
  previous record before it reads; the loop has no test of \<open>j\<close> against \<open>N_SUBSETS\<close>.
  On a short record it prints, clears \<open>data->subset[j-1]->next\<close>, decrements \<open>n_sets\<close>
  and stops; the partial record stays in \<open>data->subset[j]\<close>. The end of the file is
  found by reading one byte, which is put back when there is one.
\<close>

function dat_loop :: "dat_s \<Rightarrow> string \<Rightarrow> nat \<Rightarrow> string list \<Rightarrow> error + (dat_s \<times> string list)" where
  "dat_loop data fp j out =
     (if c_str (deviceUuid data) \<noteq> ''placeholder'' then
        (if j \<ge> N_SUBSETS then Inl OutOfBounds
         else
          (case link_prev (subset data) j of
             Inl e \<Rightarrow> Inl e
           | Inr lnk \<Rightarrow>
              (case read_subset (is_integer data) fp of
                 Inl e \<Rightarrow> Inl e
               | Inr (sub, cnt, fp1) \<Rightarrow>
                  (let data1 = data\<lparr>subset := lnk[j := Some sub], n_sets := int j + 1\<rparr> in
                   if cnt < cons_len sub + int_len sub + binL_len sub + 9 then
                     (case set_next (subset data1) (int j - 1) None of
                        Inl e \<Rightarrow> Inl e
                      | Inr cleared \<Rightarrow>
                          Inr (data1\<lparr>subset := cleared, n_sets := n_sets data1 - 1\<rparr>,
                               out @ [corrupt_message]))
                   else if fp1 \<noteq> [] then dat_loop data1 fp1 (j + 1) out
                   else Inr (data1, out)))))
      else Inr (data, out))"
  by pat_completeness auto
termination
  by (relation "measure (\<lambda>(data, fp, j, out). N_SUBSETS - j)") auto

declare dat_loop.simps [simp del]

definition empty_dat :: dat_s where
  "empty_dat =
     \<lparr>magic = replicate 17 (CHR 0x00), devUuid_len = 0, deviceUuid = [], rrd_device_name = [],
      devVar_len = 0, deviceVar = [], devSvc_len = 0, deviceSvc = [], sampleT_len = 0,
      sampleType = [], n_sets = 0, subset = replicate N_SUBSETS None\<rparr>"

definition read_dat_file :: "string \<Rightarrow> error + (dat_s \<times> string list)" where
  "read_dat_file fp =
     (case fread_bytes 17 fp of (k, m, fp0) \<Rightarrow>
        if c_str m = MAGIC then
          (case read_string fp0 of Inl e \<Rightarrow> Inl e | Inr (l1, uuid, fp1) \<Rightarrow>
           case read_string fp1 of Inl e \<Rightarrow> Inl e | Inr (l2, var, fp2) \<Rightarrow>
           case read_string fp2 of Inl e \<Rightarrow> Inl e | Inr (l3, svc, fp3) \<Rightarrow>
           case read_string fp3 of Inl e \<Rightarrow> Inl e | Inr (l4, typ, fp4) \<Rightarrow>
             dat_loop (empty_dat\<lparr>magic := m, devUuid_len := l1, deviceUuid := uuid,
                        devVar_len := l2, deviceVar := var, devSvc_len := l3, deviceSvc := svc,
                        sampleT_len := l4, sampleType := typ\<rparr>) fp4 0 [])
        else Inr (empty_dat\<lparr>magic := m\<rparr>, [bad_magic_message]))"

text \<open>
  What a metadata file contains (sections 4.1 and 6 of the specification): the magic
  token, four strings, then the buffer records, each laid out by the sample kind.
  \<open>enc_subset\<close> writes one record and \<open>enc_header\<close> the part before the records.
\<close>

definition enc_subset :: "bool \<Rightarrow> dat_sub_s \<Rightarrow> string" where
  "enc_subset integer r =
     (if integer then enc_int (unk_0 r) @ enc_int (unk_1 r) @ enc_int (unk_2 r)
      else enc_double (value_bits r) @ enc_double (divider_bits r))
     @ enc_int (timestamp_0 r) @ enc_int (timestamp_1 r) @ enc_int (minSamplesPerBin r)
     @ enc_string (binLength r)
     @ enc_int (file_offset r) @ enc_int (n_samples r) @ enc_int (unk_3 r)
     @ enc_string (interval r) @ enc_string (consolidator r)"

definition enc_header :: "dat_s \<Rightarrow> string" where
  "enc_header d =
     MAGIC @ enc_string (deviceUuid d) @ enc_string (deviceVar d) @ enc_string (deviceSvc d)
     @ enc_string (sampleType d)"

text \<open>
  A record a file can hold: its numbers fit their fields, its length fields are the
  lengths of its strings, and the fields the sample kind does not store are zero, as
  the decoder sets them. A header a file can hold, likewise.
\<close>

definition valid_subset :: "bool \<Rightarrow> dat_sub_s \<Rightarrow> bool" where
  "valid_subset integer r =
     (is_int32 (timestamp_0 r) \<and> is_int32 (timestamp_1 r) \<and> is_int32 (minSamplesPerBin r)
      \<and> is_int32 (file_offset r) \<and> is_int32 (n_samples r) \<and> is_int32 (unk_3 r)
      \<and> binL_len r = int (length (binLength r)) \<and> is_int32 (binL_len r)
      \<and> int_len r = int (length (interval r)) \<and> is_int32 (int_len r)
      \<and> cons_len r = int (length (consolidator r)) \<and> is_int32 (cons_len r)
      \<and> (if integer then is_int32 (unk_0 r) \<and> is_int32 (unk_1 r) \<and> is_int32 (unk_2 r)
              \<and> value_bits r = 0 \<and> divider_bits r = 0
          else unk_0 r = 0 \<and> unk_1 r = 0 \<and> unk_2 r = 0
              \<and> value_bits r < 2 ^ 64 \<and> divider_bits r < 2 ^ 64))"

definition valid_header :: "dat_s \<Rightarrow> bool" where
  "valid_header d =
     (magic d = MAGIC
      \<and> devUuid_len d = int (length (deviceUuid d)) \<and> is_int32 (devUuid_len d)
      \<and> devVar_len d = int (length (deviceVar d)) \<and> is_int32 (devVar_len d)
      \<and> devSvc_len d = int (length (deviceSvc d)) \<and> is_int32 (devSvc_len d)
      \<and> sampleT_len d = int (length (sampleType d)) \<and> is_int32 (sampleT_len d)
      \<and> rrd_device_name d = [])"

text \<open>
  The array \<open>subset\<close> after the records \<open>rs\<close> were decoded into its first slots: each
  record points to the next, the last to none, the other slots are null.
\<close>

definition linked :: "dat_sub_s list \<Rightarrow> dat_sub_s option list" where
  "linked rs =
     map (\<lambda>i. Some ((rs ! i)\<lparr>next_sub := (if Suc i < length rs then Some (Suc i) else None)\<rparr>))
       [0..<length rs]
     @ replicate (N_SUBSETS - length rs) None"

text \<open>
  A device with the given id and sample type tag, its other strings empty and no
  buffers; the concrete inputs below are built from it.
\<close>

definition device_of :: "string \<Rightarrow> string \<Rightarrow> dat_s" where
  "device_of uuid typ =
     empty_dat\<lparr>magic := MAGIC, devUuid_len := int (length uuid), deviceUuid := uuid,
       sampleT_len := int (length typ), sampleType := typ\<rparr>"

text \<open>
  The same array after the loop body for the next record has stored through
  \<open>data->subset[j-1]->next\<close>: the last of the records \<open>ps\<close> points to slot \<open>length ps\<close>.
\<close>

definition relinked :: "dat_sub_s list \<Rightarrow> dat_sub_s option list" where
  "relinked ps = (if ps = [] then linked ps
          else (linked ps)[length ps - 1 := Some ((last ps)\<lparr>next_sub := Some (length ps)\<rparr>)])"

text \<open>
  A descriptor with the given \<open>binLength\<close>, \<open>interval\<close> and \<open>consolidator\<close> strings and
  their lengths.
\<close>

definition named :: "dat_sub_s \<Rightarrow> string \<Rightarrow> string \<Rightarrow> string \<Rightarrow> dat_sub_s" where
  "named r a b c =
     r\<lparr>binL_len := int (length a), binLength := a, int_len := int (length b), interval := b,
       cons_len := int (length c), consolidator := c\<rparr>"

section \<open>Properties of search\<close>

lemma rot_win_sub:
  assumes "rot_win arr l h" "l \<le> l'" "l' \<le> h'" "h' \<le> h"
  shows "rot_win arr l' h'"
proof -
  from assms(1) obtain p where p: "l \<le> p" "p \<le> h"
    "\<forall>i j. l \<le> i \<and> i < j \<and> j \<le> p \<longrightarrow> arr ! nat i < arr ! nat j"
    "\<forall>i j. p < i \<and> i < j \<and> j \<le> h \<longrightarrow> arr ! nat i < arr ! nat j"
    "\<forall>i j. l \<le> i \<and> i \<le> p \<and> p < j \<and> j \<le> h \<longrightarrow> arr ! nat j < arr ! nat i"
    unfolding rot_win_def by blast
  show ?thesis
  proof (cases "p < l'")
    case True
    with p assms show ?thesis
      unfolding rot_win_def by (intro exI[of _ h']) auto
  next
    case False
    with p assms show ?thesis
      unfolding rot_win_def by (intro exI[of _ "min p h'"]) auto
  qed
qed

lemma search_rot_win:
  "0 \<le> l \<Longrightarrow> h < int (length arr) \<Longrightarrow> (l \<le> h \<longrightarrow> rot_win arr l h) \<Longrightarrow>
   (\<exists>r. search arr l h key = Inr r \<and>
      ((r = - 1 \<and> (\<forall>i. l \<le> i \<and> i \<le> h \<longrightarrow> arr ! nat i \<noteq> key)) \<or>
       (l \<le> r \<and> r \<le> h \<and> arr ! nat r = key)))"
proof (induction arr l h key rule: search.induct)
  case (1 arr l h key)
  show ?case
  proof (cases "l > h")
    case True
    then show ?thesis by (subst search.simps) simp
  next
    case False
    define mid where "mid = (l + h) sdiv 2"
    from False 1(7) have lh: "l \<le> h" and "0 \<le> l + h" using "1.prems" by auto
    then have mid: "l \<le> mid" "mid \<le> h"
      by (auto simp: mid_def signed_divide_int_def sgn_if)
    have win: "rot_win arr l h" using lh "1.prems" by simp
    then obtain p where p: "l \<le> p" "p \<le> h"
      "\<forall>i j. l \<le> i \<and> i < j \<and> j \<le> p \<longrightarrow> arr ! nat i < arr ! nat j"
      "\<forall>i j. p < i \<and> i < j \<and> j \<le> h \<longrightarrow> arr ! nat i < arr ! nat j"
      "\<forall>i j. l \<le> i \<and> i \<le> p \<and> p < j \<and> j \<le> h \<longrightarrow> arr ! nat j < arr ! nat i"
      unfolding rot_win_def by blast
    have sL: "\<And>i j. l \<le> i \<Longrightarrow> i < j \<Longrightarrow> j \<le> p \<Longrightarrow> arr ! nat i < arr ! nat j"
      and sR: "\<And>i j. p < i \<Longrightarrow> i < j \<Longrightarrow> j \<le> h \<Longrightarrow> arr ! nat i < arr ! nat j"
      and sX: "\<And>i j. l \<le> i \<Longrightarrow> i \<le> p \<Longrightarrow> p < j \<Longrightarrow> j \<le> h \<Longrightarrow> arr ! nat j < arr ! nat i"
      using p by blast+
    have rdm: "rd arr mid = Inr (arr ! nat mid)" and rdl: "rd arr l = Inr (arr ! nat l)"
      and rdh: "rd arr h = Inr (arr ! nat h)"
      using mid lh "1.prems" by (auto simp: rd_def)
    let ?am = "arr ! nat mid" and ?al = "arr ! nat l" and ?ah = "arr ! nat h"
    have subL: "l \<le> mid - 1 \<longrightarrow> rot_win arr l (mid - 1)"
      using rot_win_sub[OF win, of l "mid - 1"] mid by auto
    have subR: "mid + 1 \<le> h \<longrightarrow> rot_win arr (mid + 1) h"
      using rot_win_sub[OF win, of "mid + 1" h] mid by auto
    have bL: "0 \<le> l" "mid - 1 < int (length arr)" using "1.prems" mid by auto
    have bR: "0 \<le> mid + 1" "h < int (length arr)" using "1.prems" mid by auto
    show ?thesis
    proof (cases "?am = key")
      case True
      then show ?thesis using False rdm mid
        by (subst search.simps) (simp add: mid_def[symmetric])
    next
      case ne: False
      show ?thesis
      proof (cases "?al \<le> ?am")
        case le: True
        have mp: "mid \<le> p"
        proof (rule ccontr)
          assume "\<not> mid \<le> p"
          then have "?am < ?al" using sX[of l mid] p mid by auto
          with le show False by simp
        qed
        show ?thesis
        proof (cases "key \<ge> ?al \<and> key \<le> ?am")
          case inL: True
          have IH: "\<exists>r. search arr l (mid - 1) key = Inr r \<and>
             ((r = - 1 \<and> (\<forall>i. l \<le> i \<and> i \<le> mid - 1 \<longrightarrow> arr ! nat i \<noteq> key)) \<or>
              (l \<le> r \<and> r \<le> mid - 1 \<and> arr ! nat r = key))"
            using "1.IH"(1)[OF False mid_def rdm ne rdl le inL bL subL] .
          have rest: "\<forall>i. mid \<le> i \<and> i \<le> h \<longrightarrow> arr ! nat i \<noteq> key"
          proof (intro allI impI)
            fix i assume i: "mid \<le> i \<and> i \<le> h"
            show "arr ! nat i \<noteq> key"
            proof (cases "i = mid")
              case True then show ?thesis using ne by simp
            next
              case False
              show ?thesis
              proof (cases "i \<le> p")
                case True
                then have "?am < arr ! nat i" using sL[of mid i] mid i False by auto
                then show ?thesis using inL by auto
              next
                case False
                then have "arr ! nat i < ?al" using sX[of l i] p i by auto
                then show ?thesis using inL by auto
              qed
            qed
          qed
          have eq: "search arr l h key = search arr l (mid - 1) key"
            using False rdm rdl ne le inL
            by (subst search.simps) (simp add: mid_def[symmetric])
          from IH obtain r where r: "search arr l (mid - 1) key = Inr r"
            and d: "(r = - 1 \<and> (\<forall>i. l \<le> i \<and> i \<le> mid - 1 \<longrightarrow> arr ! nat i \<noteq> key)) \<or>
              (l \<le> r \<and> r \<le> mid - 1 \<and> arr ! nat r = key)" by blast
          have "(\<forall>i. l \<le> i \<and> i \<le> mid - 1 \<longrightarrow> arr ! nat i \<noteq> key)
             \<Longrightarrow> (\<forall>i. l \<le> i \<and> i \<le> h \<longrightarrow> arr ! nat i \<noteq> key)"
            using rest by (metis zle_diff1_eq not_le)
          with d mid show ?thesis unfolding eq r by auto
        next
          case notL: False
          have IH: "\<exists>r. search arr (mid + 1) h key = Inr r \<and>
             ((r = - 1 \<and> (\<forall>i. mid + 1 \<le> i \<and> i \<le> h \<longrightarrow> arr ! nat i \<noteq> key)) \<or>
              (mid + 1 \<le> r \<and> r \<le> h \<and> arr ! nat r = key))"
            using "1.IH"(2)[OF False mid_def rdm ne rdl le notL bR subR] .
          have rest: "\<forall>i. l \<le> i \<and> i \<le> mid \<longrightarrow> arr ! nat i \<noteq> key"
          proof (intro allI impI)
            fix i assume i: "l \<le> i \<and> i \<le> mid"
            have "?al \<le> arr ! nat i" using sL[of l i] i mp by (cases "i = l") auto
            moreover have "arr ! nat i \<le> ?am" using sL[of i mid] i mp by (cases "i = mid") auto
            ultimately show "arr ! nat i \<noteq> key" using notL by auto
          qed
          have eq: "search arr l h key = search arr (mid + 1) h key"
            using False rdm rdl ne le notL
            by (subst search.simps) (auto simp add: mid_def[symmetric])
          from IH obtain r where r: "search arr (mid + 1) h key = Inr r"
            and d: "(r = - 1 \<and> (\<forall>i. mid + 1 \<le> i \<and> i \<le> h \<longrightarrow> arr ! nat i \<noteq> key)) \<or>
              (mid + 1 \<le> r \<and> r \<le> h \<and> arr ! nat r = key)" by blast
          have "(\<forall>i. mid + 1 \<le> i \<and> i \<le> h \<longrightarrow> arr ! nat i \<noteq> key)
             \<Longrightarrow> (\<forall>i. l \<le> i \<and> i \<le> h \<longrightarrow> arr ! nat i \<noteq> key)"
            using rest by (metis add1_zle_eq not_le)
          with d mid show ?thesis unfolding eq r by auto
        qed
      next
        case gt: False
        have pm: "p < mid"
        proof (rule ccontr)
          assume "\<not> p < mid"
          then have "?al \<le> ?am" using sL[of l mid] mid by (cases "l = mid") auto
          with gt show False by simp
        qed
        have keepL: "search arr l h key = search arr l (mid - 1) key"
          if "\<not> (key \<ge> ?am \<and> key \<le> ?ah)"
          using False rdm rdl rdh ne gt that
          by (subst search.simps) (auto simp add: mid_def[symmetric])
        have keepR: "search arr l h key = search arr (mid + 1) h key"
          if "key \<ge> ?am \<and> key \<le> ?ah"
          using False rdm rdl rdh ne gt that
          by (subst search.simps) (auto simp add: mid_def[symmetric])
        show ?thesis
        proof (cases "key \<ge> ?am \<and> key \<le> ?ah")
          case inR: True
          then have ge: "key \<ge> ?am" and leh: "key \<le> ?ah" by auto
          have IH: "\<exists>r. search arr (mid + 1) h key = Inr r \<and>
             ((r = - 1 \<and> (\<forall>i. mid + 1 \<le> i \<and> i \<le> h \<longrightarrow> arr ! nat i \<noteq> key)) \<or>
              (mid + 1 \<le> r \<and> r \<le> h \<and> arr ! nat r = key))"
            using "1.IH"(3)[OF False mid_def rdm ne rdl gt ge rdh leh bR subR] .
          have rest: "\<forall>i. l \<le> i \<and> i \<le> mid \<longrightarrow> arr ! nat i \<noteq> key"
          proof (intro allI impI)
            fix i assume i: "l \<le> i \<and> i \<le> mid"
            show "arr ! nat i \<noteq> key"
            proof (cases "i \<le> p")
              case True
              then have "?ah < arr ! nat i" using sX[of i h] i p pm mid by auto
              then show ?thesis using leh by auto
            next
              case False
              show ?thesis
              proof (cases "i = mid")
                case True then show ?thesis using ne by simp
              next
                case nm: False
                then have "arr ! nat i < ?am" using sR[of i mid] i False mid by auto
                then show ?thesis using ge by auto
              qed
            qed
          qed
          from IH obtain r where r: "search arr (mid + 1) h key = Inr r"
            and d: "(r = - 1 \<and> (\<forall>i. mid + 1 \<le> i \<and> i \<le> h \<longrightarrow> arr ! nat i \<noteq> key)) \<or>
              (mid + 1 \<le> r \<and> r \<le> h \<and> arr ! nat r = key)" by blast
          have "(\<forall>i. mid + 1 \<le> i \<and> i \<le> h \<longrightarrow> arr ! nat i \<noteq> key)
             \<Longrightarrow> (\<forall>i. l \<le> i \<and> i \<le> h \<longrightarrow> arr ! nat i \<noteq> key)"
            using rest by (metis add1_zle_eq not_le)
          with d mid show ?thesis unfolding keepR[OF inR] r by auto
        next
          case notR: False
          have IH: "\<exists>r. search arr l (mid - 1) key = Inr r \<and>
             ((r = - 1 \<and> (\<forall>i. l \<le> i \<and> i \<le> mid - 1 \<longrightarrow> arr ! nat i \<noteq> key)) \<or>
              (l \<le> r \<and> r \<le> mid - 1 \<and> arr ! nat r = key))"
          proof (cases "key \<ge> ?am")
            case True
            then have "\<not> key \<le> ?ah" using notR by simp
            from "1.IH"(4)[OF False mid_def rdm ne rdl gt True rdh this bL subL] show ?thesis .
          next
            case False
            from "1.IH"(5)[OF \<open>\<not> h < l\<close> mid_def rdm ne rdl gt False bL subL] show ?thesis .
          qed
          have rest: "\<forall>i. mid \<le> i \<and> i \<le> h \<longrightarrow> arr ! nat i \<noteq> key"
          proof (intro allI impI)
            fix i assume i: "mid \<le> i \<and> i \<le> h"
            have lo: "?am \<le> arr ! nat i" using sR[of mid i] i pm mid by (cases "i = mid") auto
            have hi: "arr ! nat i \<le> ?ah" using sR[of i h] i pm mid by (cases "i = h") auto
            show "arr ! nat i \<noteq> key" using lo hi notR by auto
          qed
          from IH obtain r where r: "search arr l (mid - 1) key = Inr r"
            and d: "(r = - 1 \<and> (\<forall>i. l \<le> i \<and> i \<le> mid - 1 \<longrightarrow> arr ! nat i \<noteq> key)) \<or>
              (l \<le> r \<and> r \<le> mid - 1 \<and> arr ! nat r = key)" by blast
          have "(\<forall>i. l \<le> i \<and> i \<le> mid - 1 \<longrightarrow> arr ! nat i \<noteq> key)
             \<Longrightarrow> (\<forall>i. l \<le> i \<and> i \<le> h \<longrightarrow> arr ! nat i \<noteq> key)"
            using rest by (metis zle_diff1_eq not_le)
          with d mid show ?thesis unfolding keepL[OF notR] r by auto
        qed
      qed
    qed
  qed
qed


lemma rot_win_of_split:
  assumes s: "sorted_wrt (<) (drop m arr @ take m arr)" and ne: "arr \<noteq> []" and m: "m < length arr"
  shows "rot_win arr 0 (int (length arr) - 1)"
proof -
  from s have sd: "sorted_wrt (<) (drop m arr)" and st: "sorted_wrt (<) (take m arr)"
    and cr: "\<forall>x\<in>set (drop m arr). \<forall>y\<in>set (take m arr). x < y"
    by (auto simp: sorted_wrt_append)
  have T: "arr ! i < arr ! j" if "i < j" "j < m" for i j
    using st that m sorted_wrt_nth_less[of "(<)" "take m arr" i j] by simp
  have D: "arr ! i < arr ! j" if "m \<le> i" "i < j" "j < length arr" for i j
    using sd that sorted_wrt_nth_less[of "(<)" "drop m arr" "i - m" "j - m"] by simp
  have X: "arr ! j < arr ! i" if "i < m" "m \<le> j" "j < length arr" for i j
  proof -
    have "drop m arr ! (j - m) \<in> set (drop m arr)" by (rule nth_mem) (use that in simp)
    then have "arr ! j \<in> set (drop m arr)" using that by simp
    moreover have "take m arr ! i \<in> set (take m arr)" by (rule nth_mem) (use that m in simp)
    then have "arr ! i \<in> set (take m arr)" using that by simp
    ultimately show ?thesis using cr by blast
  qed
  show ?thesis
  proof (cases "m = 0")
    case True
    show ?thesis unfolding rot_win_def
    proof (intro exI[of _ "int (length arr) - 1"] conjI allI impI)
      fix i j :: int assume "0 \<le> i \<and> i < j \<and> j \<le> int (length arr) - 1"
      then show "arr ! nat i < arr ! nat j" using D[of "nat i" "nat j"] True by auto
    qed (use ne in auto)
  next
    case False
    show ?thesis unfolding rot_win_def
    proof (intro exI[of _ "int m - 1"] conjI allI impI)
      fix i j :: int assume "0 \<le> i \<and> i < j \<and> j \<le> int m - 1"
      then show "arr ! nat i < arr ! nat j" using T[of "nat i" "nat j"] by auto
    next
      fix i j :: int assume "int m - 1 < i \<and> i < j \<and> j \<le> int (length arr) - 1"
      then show "arr ! nat i < arr ! nat j" using D[of "nat i" "nat j"] by auto
    next
      fix i j :: int assume "0 \<le> i \<and> i \<le> int m - 1 \<and> int m - 1 < j \<and> j \<le> int (length arr) - 1"
      then show "arr ! nat j < arr ! nat i" using X[of "nat i" "nat j"] by auto
    qed (use False m in auto)
  qed
qed

lemma rotated_sorted_rot_win:
  assumes "rotated_sorted arr" "arr \<noteq> []"
  shows "rot_win arr 0 (int (length arr) - 1)"
proof -
  from assms(1) obtain k where "sorted_wrt (<) (rotate k arr)"
    unfolding rotated_sorted_def list_ex_iff by blast
  then have "sorted_wrt (<) (drop (k mod length arr) arr @ take (k mod length arr) arr)"
    by (simp add: rotate_drop_take)
  then show ?thesis using rot_win_of_split[of "k mod length arr" arr] assms(2) by simp
qed

text \<open>
  C3. On a rotated-sorted array of distinct integers and a window \<open>0 \<le> l \<le> h < length\<close>
  (the empty window \<open>l = h + 1\<close> included, which is all an empty array allows), the search
  reads no element outside the array; when the key occurs in \<open>arr[l..h]\<close> it returns an
  index of the window at which the array holds the key, and when the key does not occur
  there it returns \<open>-1\<close>, which is no index of the array.
\<close>

theorem search_rotated_sorted:
  assumes "rotated_sorted arr" "0 \<le> l" "l \<le> h + 1" "h < int (length arr)"
  shows "(key \<in> set (take (nat (h - l + 1)) (drop (nat l) arr)) \<longrightarrow>
           (\<exists>r. search arr l h key = Inr r \<and> l \<le> r \<and> r \<le> h \<and> r \<noteq> - 1 \<and> arr ! nat r = key))
       \<and> (key \<notin> set (take (nat (h - l + 1)) (drop (nat l) arr)) \<longrightarrow>
           search arr l h key = Inr (- 1))"
proof (cases "l \<le> h")
  case False
  then have "search arr l h key = Inr (- 1)" by (subst search.simps) simp
  moreover have "nat (h - l + 1) = 0" using False by simp
  ultimately show ?thesis by simp
next
  case lh: True
  have ne: "arr \<noteq> []" using assms lh by auto
  have "rot_win arr 0 (int (length arr) - 1)" by (rule rotated_sorted_rot_win[OF assms(1) ne])
  then have w: "rot_win arr l h" using rot_win_sub assms lh by simp
  have win: "key \<in> set (take (nat (h - l + 1)) (drop (nat l) arr))
       \<longleftrightarrow> (\<exists>i. l \<le> i \<and> i \<le> h \<and> arr ! nat i = key)" (is "?A \<longleftrightarrow> ?B")
  proof
    assume ?A
    then obtain n where n: "n < nat (h - l + 1)" "n < length arr - nat l"
      "take (nat (h - l + 1)) (drop (nat l) arr) ! n = key"
      by (auto simp: in_set_conv_nth)
    then have "arr ! (nat l + n) = key" by simp
    then show ?B using n assms by (intro exI[of _ "l + int n"]) (auto simp: nat_add_distrib)
  next
    assume ?B
    then obtain i where i: "l \<le> i" "i \<le> h" "arr ! nat i = key" by blast
    have "take (nat (h - l + 1)) (drop (nat l) arr) ! (nat (i - l)) = key"
      using i assms by (simp add: nat_diff_distrib)
    moreover have "nat (i - l) < length (take (nat (h - l + 1)) (drop (nat l) arr))"
      using i assms by auto
    ultimately show ?A using nth_mem by blast
  qed
  from search_rot_win[of l h arr key] w assms
  obtain r where r: "search arr l h key = Inr r"
    and d: "(r = - 1 \<and> (\<forall>i. l \<le> i \<and> i \<le> h \<longrightarrow> arr ! nat i \<noteq> key)) \<or>
       (l \<le> r \<and> r \<le> h \<and> arr ! nat r = key)" by blast
  show ?thesis unfolding win r using d assms by auto
qed

theorem search_rotated_sorted_witness:
  "rotated_sorted [300, 400, 100, 200] \<and> (0::int) \<le> 0 \<and> (0::int) \<le> 3 + 1
   \<and> 3 < int (length [300, 400, 100, 200 :: int])
   \<and> (\<exists>r. search [300, 400, 100, 200] 0 3 100 = Inr r \<and> 0 \<le> r \<and> r \<le> 3 \<and> r \<noteq> - 1
          \<and> [300, 400, 100, 200 :: int] ! nat r = 100)
   \<and> search [300, 400, 100, 200] 0 3 250 = Inr (- 1)"
proof -
  have rs: "rotated_sorted [300, 400, 100, 200]" by code_simp
  have b: "(0::int) \<le> 0" "(0::int) \<le> 3 + 1" "3 < int (length [300, 400, 100, 200 :: int])"
    by simp_all
  from search_rotated_sorted[OF rs b, of 100] search_rotated_sorted[OF rs b, of 250] rs
  show ?thesis by simp
qed

section \<open>Properties of the merge\<close>

text \<open>
  Whatever the array, an index the search returns is an index of the window at which
  the array holds the key.
\<close>

lemma search_sound:
  "search arr l h key = Inr r \<Longrightarrow> 0 \<le> l \<Longrightarrow>
   r = - 1 \<or> (l \<le> r \<and> r \<le> h \<and> r < int (length arr) \<and> arr ! nat r = key)"
proof (induction arr l h key rule: search.induct)
  case (1 arr l h key)
  note S = search.simps[of arr l h key]
  show ?case
  proof (cases "l > h")
    case True
    with "1.prems" show ?thesis by (simp add: S)
  next
    case False
    define mid where "mid = (l + h) sdiv 2"
    from "1.prems" False obtain am where am: "rd arr mid = Inr am"
      by (auto simp: S mid_def[symmetric] Let_def split: sum.splits)
    then have m0: "0 \<le> mid" "mid < int (length arr)" "am = arr ! nat mid"
      by (auto simp: rd_def split: if_splits)
    with mid_in_window[of l h] False have m: "l \<le> mid" "mid \<le> h" by (auto simp: mid_def)
    have l1: "0 \<le> mid + 1" using m0 by simp
    show ?thesis
    proof (cases "am = key")
      case True
      with "1.prems" False am m m0 show ?thesis
        by (simp add: S mid_def[symmetric])
    next
      case ne: False
      from "1.prems" False am ne obtain al where al: "rd arr l = Inr al"
        by (auto simp: S mid_def[symmetric] Let_def split: sum.splits)
      show ?thesis
      proof (cases "al \<le> am")
        case A: True
        show ?thesis
        proof (cases "key \<ge> al \<and> key \<le> am")
          case A1: True
          then have "search arr l (mid - 1) key = Inr r"
            using "1.prems"(1) False am ne al A by (simp add: S mid_def[symmetric])
          from "1.IH"(1)[OF False mid_def am ne al A A1 this "1.prems"(2)] m show ?thesis by auto
        next
          case A2: False
          then have "search arr (mid + 1) h key = Inr r"
            using "1.prems"(1) False am ne al A by (auto simp add: S mid_def[symmetric])
          from "1.IH"(2)[OF False mid_def am ne al A A2 this l1] m show ?thesis by auto
        qed
      next
        case B: False
        show ?thesis
        proof (cases "key \<ge> am")
          case ge: True
          from "1.prems" False am ne al B ge obtain ah where ah: "rd arr h = Inr ah"
            by (auto simp: S mid_def[symmetric] Let_def split: sum.splits)
          show ?thesis
          proof (cases "key \<le> ah")
            case le: True
            then have "search arr (mid + 1) h key = Inr r"
              using "1.prems"(1) False am ne al B ge ah by (simp add: S mid_def[symmetric])
            from "1.IH"(3)[OF False mid_def am ne al B ge ah le this l1] m show ?thesis by auto
          next
            case nle: False
            then have "search arr l (mid - 1) key = Inr r"
              using "1.prems"(1) False am ne al B ge ah by (simp add: S mid_def[symmetric])
            from "1.IH"(4)[OF False mid_def am ne al B ge ah nle this "1.prems"(2)] m
            show ?thesis by auto
          qed
        next
          case lt: False
          then have "search arr l (mid - 1) key = Inr r"
            using "1.prems"(1) False am ne al B by (simp add: S mid_def[symmetric])
          from "1.IH"(5)[OF False mid_def am ne al B lt this "1.prems"(2)] m show ?thesis by auto
        qed
      qed
    qed
  qed
qed

lemma copy_rra_take:
  "0 \<le> i \<Longrightarrow> i \<le> n \<Longrightarrow> length tmp = nat n \<Longrightarrow> nat n \<le> length data_rra \<Longrightarrow>
   copy_rra n data_rra tmp i = Inr (take (nat i) tmp @ drop (nat i) (take (nat n) data_rra))"
proof (induction "nat (n - i)" arbitrary: i tmp)
  case 0
  then have "i = n" by simp
  with 0 show ?case by (subst copy_rra.simps) simp
next
  case (Suc m)
  then have lt: "i < n" by simp
  have r: "rd data_rra i = Inr (data_rra ! nat i)" using Suc.prems lt by (simp add: rd_def)
  have w: "wr tmp i (data_rra ! nat i) = Inr (tmp[nat i := data_rra ! nat i])"
    using Suc.prems lt by (simp add: wr_def)
  have "copy_rra n data_rra tmp i = copy_rra n data_rra (tmp[nat i := data_rra ! nat i]) (i + 1)"
    using lt r w by (simp add: copy_rra.simps[of n data_rra tmp i])
  also have "\<dots> = Inr (take (nat (i + 1)) (tmp[nat i := data_rra ! nat i])
                      @ drop (nat (i + 1)) (take (nat n) data_rra))"
    using Suc.hyps(2) Suc.prems lt by (intro Suc.hyps(1)) auto
  also have "take (nat (i + 1)) (tmp[nat i := data_rra ! nat i]) = take (nat i) tmp @ [data_rra ! nat i]"
    using Suc.prems lt by (simp add: nat_add_distrib take_Suc_conv_app_nth)
  also have "(take (nat i) tmp @ [data_rra ! nat i]) @ drop (nat (i + 1)) (take (nat n) data_rra)
     = take (nat i) tmp @ drop (nat i) (take (nat n) data_rra)"
    using Suc.prems lt by (simp add: nat_add_distrib Cons_nth_drop_Suc[symmetric])
  finally show ?case .
qed

lemma merge_loop_slots:
  assumes len: "length data_csv = nat n" "length time_csv = nat n" "length time_rra = nat n"
  shows "0 \<le> i \<Longrightarrow> i \<le> n \<Longrightarrow> length tmp = nat n \<Longrightarrow>
     (\<forall>j. nat i \<le> j \<and> j < nat n \<and> t_min \<le> time_csv ! j \<and> time_csv ! j \<le> t_max
          \<longrightarrow> (\<exists>k. search time_csv 0 n (time_rra ! j) = Inr k)) \<Longrightarrow>
     \<exists>out. merge_loop n t_min t_max data_csv time_csv time_rra tmp i = Inr out \<and> length out = nat n \<and>
       (\<forall>j<nat n. out ! j =
          (if nat i \<le> j \<and> t_min \<le> time_csv ! j \<and> time_csv ! j \<le> t_max then
             (case search time_csv 0 n (time_rra ! j) of
                Inr k \<Rightarrow> if 0 \<le> k then data_csv ! nat k else tmp ! j
              | Inl e \<Rightarrow> tmp ! j)
           else tmp ! j))"
proof (induction "nat (n - i)" arbitrary: i tmp)
  case 0
  then have "i = n" by simp
  with 0 show ?case by (subst merge_loop.simps) simp
next
  case (Suc m)
  note M = merge_loop.simps[of n t_min t_max data_csv time_csv time_rra tmp i]
  from Suc have lt: "i < n" by simp
  have i0: "0 \<le> i" by fact
  have rc: "rd time_csv i = Inr (time_csv ! nat i)" using len lt i0 by (simp add: rd_def)
  have rr: "rd time_rra i = Inr (time_rra ! nat i)" using len lt i0 by (simp add: rd_def)
  let ?G = "t_min \<le> time_csv ! nat i \<and> time_csv ! nat i \<le> t_max"
  have step: "\<exists>tmp'. merge_loop n t_min t_max data_csv time_csv time_rra tmp i
        = merge_loop n t_min t_max data_csv time_csv time_rra tmp' (i + 1)
      \<and> length tmp' = nat n \<and> (\<forall>j<nat n. j \<noteq> nat i \<longrightarrow> tmp' ! j = tmp ! j)
      \<and> tmp' ! nat i = (if ?G then
             (case search time_csv 0 n (time_rra ! nat i) of
                Inr k \<Rightarrow> if 0 \<le> k then data_csv ! nat k else tmp ! nat i
              | Inl e \<Rightarrow> tmp ! nat i)
           else tmp ! nat i)"
  proof (cases ?G)
    case False
    then show ?thesis using lt rc Suc.prems by (intro exI[of _ tmp]) (auto simp: M)
  next
    case G: True
    from Suc.prems(4) G lt i0 obtain k where k: "search time_csv 0 n (time_rra ! nat i) = Inr k"
    proof -
      have "nat i \<le> nat i \<and> nat i < nat n" using lt i0 by simp
      with Suc.prems(4) G show ?thesis using that by blast
    qed
    show ?thesis
    proof (cases "0 \<le> k")
      case False
      then show ?thesis using lt rc rr G k Suc.prems by (intro exI[of _ tmp]) (auto simp: M)
    next
      case True
      with search_sound[OF k] len have kb: "k < int (length data_csv)" by auto
      then have rv: "rd data_csv k = Inr (data_csv ! nat k)" using True by (simp add: rd_def)
      have w: "wr tmp i (data_csv ! nat k) = Inr (tmp[nat i := data_csv ! nat k])"
        using Suc.prems lt by (simp add: wr_def)
      show ?thesis using lt rc rr G k True rv w Suc.prems i0
        by (intro exI[of _ "tmp[nat i := data_csv ! nat k]"]) (auto simp: M)
    qed
  qed
  then obtain tmp' where eq: "merge_loop n t_min t_max data_csv time_csv time_rra tmp i
        = merge_loop n t_min t_max data_csv time_csv time_rra tmp' (i + 1)"
    and l': "length tmp' = nat n" and same: "\<And>j. j < nat n \<Longrightarrow> j \<noteq> nat i \<Longrightarrow> tmp' ! j = tmp ! j"
    and at: "tmp' ! nat i = (if ?G then
             (case search time_csv 0 n (time_rra ! nat i) of
                Inr k \<Rightarrow> if 0 \<le> k then data_csv ! nat k else tmp ! nat i
              | Inl e \<Rightarrow> tmp ! nat i)
           else tmp ! nat i)" by blast
  have ni: "nat (i + 1) = Suc (nat i)" using i0 by simp
  have "\<exists>out. merge_loop n t_min t_max data_csv time_csv time_rra tmp' (i + 1) = Inr out \<and> length out = nat n \<and>
       (\<forall>j<nat n. out ! j =
          (if nat (i + 1) \<le> j \<and> t_min \<le> time_csv ! j \<and> time_csv ! j \<le> t_max then
             (case search time_csv 0 n (time_rra ! j) of
                Inr k \<Rightarrow> if 0 \<le> k then data_csv ! nat k else tmp' ! j
              | Inl e \<Rightarrow> tmp' ! j)
           else tmp' ! j))"
  proof (rule Suc.hyps(1))
    show "m = nat (n - (i + 1))" using Suc.hyps(2) by simp
    show "0 \<le> i + 1" using i0 by simp
    show "i + 1 \<le> n" using lt by simp
    show "length tmp' = nat n" by fact
    show "\<forall>j. nat (i + 1) \<le> j \<and> j < nat n \<and> t_min \<le> time_csv ! j \<and> time_csv ! j \<le> t_max
          \<longrightarrow> (\<exists>k. search time_csv 0 n (time_rra ! j) = Inr k)"
      using Suc.prems(4) ni by auto
  qed
  then obtain out where o: "merge_loop n t_min t_max data_csv time_csv time_rra tmp' (i + 1) = Inr out"
    "length out = nat n"
    and oj: "\<And>j. j < nat n \<Longrightarrow> out ! j =
          (if nat (i + 1) \<le> j \<and> t_min \<le> time_csv ! j \<and> time_csv ! j \<le> t_max then
             (case search time_csv 0 n (time_rra ! j) of
                Inr k \<Rightarrow> if 0 \<le> k then data_csv ! nat k else tmp' ! j
              | Inl e \<Rightarrow> tmp' ! j)
           else tmp' ! j)" by blast
  show ?case
  proof (intro exI[of _ out] conjI allI impI)
    show "merge_loop n t_min t_max data_csv time_csv time_rra tmp i = Inr out" using eq o by simp
    show "length out = nat n" by fact
    fix j assume j: "j < nat n"
    show "out ! j =
          (if nat i \<le> j \<and> t_min \<le> time_csv ! j \<and> time_csv ! j \<le> t_max then
             (case search time_csv 0 n (time_rra ! j) of
                Inr k \<Rightarrow> if 0 \<le> k then data_csv ! nat k else tmp ! j
              | Inl e \<Rightarrow> tmp ! j)
           else tmp ! j)"
    proof (cases "j = nat i")
      case True
      with j have "nat i < nat n" by simp
      from oj[OF this] at ni show ?thesis unfolding True by (simp split: sum.splits)
    next
      case False
      then have "nat (i + 1) \<le> j \<longleftrightarrow> nat i \<le> j" using ni by auto
      then show ?thesis using oj[OF j] same[OF j False] by (simp split: sum.splits)
    qed
  qed
qed

text \<open>
  The merge slot by slot, for a run whose accesses stay inside the arrays: the four
  arrays have \<open>n_samples\<close> elements, the slots \<open>file_offset\<close> and \<open>file_offset + 1\<close>
  exist, and the searches the loop makes return.
\<close>

lemma sort_data_for_rra_slots:
  fixes data_csv :: "'v::zero list"
  assumes len: "length data_csv = nat (n_samples s)" "length data_rra = nat (n_samples s)"
      "length time_csv = nat (n_samples s)" "length time_rra = nat (n_samples s)"
    and fo: "0 \<le> file_offset s" "file_offset s + 1 < n_samples s"
    and srch: "\<forall>i<nat (n_samples s). in_window s time_rra (time_csv ! i)
        \<longrightarrow> (\<exists>k. search time_csv 0 (n_samples s) (time_rra ! i) = Inr k)"
  shows "\<exists>out. sort_data_for_rra s data_csv data_rra time_csv time_rra = Inr out
      \<and> length out = nat (n_samples s)
      \<and> (\<forall>i<nat (n_samples s). out ! i =
           (if in_window s time_rra (time_csv ! i) then
              (case found_at s time_csv (time_rra ! i) of
                 Some k \<Rightarrow> data_csv ! k | None \<Rightarrow> data_rra ! i)
            else data_rra ! i))"
proof -
  let ?n = "n_samples s"
  have n0: "0 \<le> ?n" using fo by simp
  have c: "copy_rra ?n data_rra (replicate (nat ?n) 0) 0 = Inr data_rra"
    using copy_rra_take[of 0 ?n "replicate (nat ?n) 0" data_rra] len n0 by simp
  have r1: "rd time_rra (file_offset s + 1) = Inr (time_rra ! nat (file_offset s + 1))"
    and r2: "rd time_rra (file_offset s) = Inr (time_rra ! nat (file_offset s))"
    using fo len by (auto simp: rd_def)
  let ?tmin = "time_rra ! nat (file_offset s + 1)" and ?tmax = "time_rra ! nat (file_offset s)"
  have eq: "sort_data_for_rra s data_csv data_rra time_csv time_rra
      = merge_loop ?n ?tmin ?tmax data_csv time_csv time_rra data_rra 0"
    by (simp add: sort_data_for_rra_def c r1 r2)
  have "\<exists>out. merge_loop ?n ?tmin ?tmax data_csv time_csv time_rra data_rra 0 = Inr out \<and> length out = nat ?n \<and>
       (\<forall>j<nat ?n. out ! j =
          (if nat 0 \<le> j \<and> ?tmin \<le> time_csv ! j \<and> time_csv ! j \<le> ?tmax then
             (case search time_csv 0 ?n (time_rra ! j) of
                Inr k \<Rightarrow> if 0 \<le> k then data_csv ! nat k else data_rra ! j
              | Inl e \<Rightarrow> data_rra ! j)
           else data_rra ! j))"
    using srch n0 len by (intro merge_loop_slots) (auto simp: in_window_def)
  then show ?thesis unfolding eq
    by (auto simp: in_window_def found_at_def split: sum.splits)
qed

text \<open>
  C1. The second loop gates slot \<open>i\<close> on the import timestamp stored at the same index,
  \<open>time_csv[i]\<close>, and not on the slot's own timestamp \<open>time_rra[i]\<close>, which it only
  passes to \<open>search\<close>. With the destination timestamps \<open>[300, 400, 100, 200]\<close>
  (\<open>file_offset = 1\<close>, window \<open>[100, 400]\<close>) and the import rows \<open>(50, 1)\<close>, \<open>(200, 2)\<close>,
  \<open>(300, 3)\<close>, \<open>(400, 4)\<close>, the destination timestamp \<open>300\<close> of slot \<open>0\<close> lies in the
  window and is the import timestamp of index \<open>2\<close>, yet slot \<open>0\<close> keeps the destination's
  value \<open>10\<close> and does not receive the import value \<open>3\<close>, because \<open>time_csv[0] = 50\<close> is
  outside the window. Every access of this run is inside the arrays.
\<close>

theorem sort_data_for_rra_gates_on_import_slot:
  "sort_data_for_rra (buffer_of 300 400 1 4) [1, 2, 3, 4 :: int] [10, 11, 12, 13]
       [50, 200, 300, 400] [300, 400, 100, 200] = Inr [10, 4, 12, 2]
   \<and> create_rra_time (buffer_of 300 400 1 4) = Inr [300, 400, 100, 200]
   \<and> in_window (buffer_of 300 400 1 4) [300, 400, 100, 200] ([300, 400, 100, 200] ! 0)
   \<and> [300, 400, 100, 200 :: int] ! 0 = [50, 200, 300, 400] ! 2
   \<and> [1, 2, 3, 4 :: int] ! 2 = 3"
  by code_simp

lemma merge_loop_idle:
  "0 \<le> i \<Longrightarrow> nat n \<le> length time_csv \<Longrightarrow>
   (\<forall>j. nat i \<le> j \<and> j < nat n \<longrightarrow> \<not> (t_min \<le> time_csv ! j \<and> time_csv ! j \<le> t_max)) \<Longrightarrow>
   merge_loop n t_min t_max data_csv time_csv time_rra tmp i = Inr tmp"
proof (induction "nat (n - i)" arbitrary: i)
  case 0
  then have "\<not> i < n" by simp
  then show ?case by (subst merge_loop.simps) simp
next
  case (Suc m)
  then have lt: "i < n" by simp
  have rc: "rd time_csv i = Inr (time_csv ! nat i)"
    using Suc.prems lt by (simp add: rd_def)
  have out: "\<not> (t_min \<le> time_csv ! nat i \<and> time_csv ! nat i \<le> t_max)"
    using Suc.prems lt by simp
  have "merge_loop n t_min t_max data_csv time_csv time_rra tmp i
      = merge_loop n t_min t_max data_csv time_csv time_rra tmp (i + 1)"
    using lt rc out by (subst merge_loop.simps) auto
  also have "\<dots> = Inr tmp"
    using Suc.hyps(2) Suc.prems lt by (intro Suc.hyps(1)) auto
  finally show ?case .
qed

text \<open>
  C5. The window's ends are the words the merge reads at \<open>time_rra[file_offset + 1]\<close>
  and \<open>time_rra[file_offset]\<close>. The list \<open>time_rra\<close> is what can be read from the
  pointer: the destination's timestamps and, when \<open>file_offset\<close> is the last slot, the
  word behind them, which the merge reads as the oldest timestamp. The loop tests the
  import timestamp \<open>time_csv[i]\<close> of every slot against the window and touches slot \<open>i\<close>
  only when it lies inside. So when no import timestamp lies in the window the output is
  the destination's array, slot for slot, whatever the import's values are.
\<close>

theorem sort_data_for_rra_idle:
  fixes data_csv :: "'v::zero list"
  assumes "length data_rra = nat (n_samples s)" "nat (n_samples s) \<le> length time_csv"
    and "0 \<le> file_offset s" "file_offset s + 1 < int (length time_rra)"
    and "\<forall>i<nat (n_samples s). \<not> in_window s time_rra (time_csv ! i)"
  shows "sort_data_for_rra s data_csv data_rra time_csv time_rra = Inr data_rra"
proof -
  let ?n = "n_samples s"
  have c: "copy_rra ?n data_rra (replicate (nat ?n) 0) 0 = Inr data_rra"
  proof (cases "0 \<le> ?n")
    case True
    then show ?thesis
      using copy_rra_take[of 0 ?n "replicate (nat ?n) 0" data_rra] assms(1) by simp
  next
    case False
    then have "data_rra = []" "\<not> 0 < ?n" using assms(1) by simp_all
    then show ?thesis by (subst copy_rra.simps) simp
  qed
  have r1: "rd time_rra (file_offset s + 1) = Inr (time_rra ! nat (file_offset s + 1))"
    and r2: "rd time_rra (file_offset s) = Inr (time_rra ! nat (file_offset s))"
    using assms(3,4) by (auto simp: rd_def)
  have "merge_loop ?n (time_rra ! nat (file_offset s + 1)) (time_rra ! nat (file_offset s))
          data_csv time_csv time_rra data_rra 0 = Inr data_rra"
    using assms(2,5) by (intro merge_loop_idle) (auto simp: in_window_def)
  then show ?thesis by (simp add: sort_data_for_rra_def c r1 r2)
qed

theorem sort_data_for_rra_idle_witness:
  "sort_data_for_rra (buffer_of 300 400 1 4) [1, 2, 3, 4 :: int] [10, 11, 12, 13]
       [500, 600, 700, 800] [300, 400, 100, 200] = Inr [10, 11, 12, 13]
   \<and> sort_data_for_rra (buffer_of 300 400 3 4) [1, 2, 3, 4 :: int] [10, 11, 12, 13]
       [500, 600, 700, 800] [100, 200, 300, 400, 0] = Inr [10, 11, 12, 13]"
proof -
  have a: "\<forall>i<nat (n_samples (buffer_of 300 400 1 4)).
      \<not> in_window (buffer_of 300 400 1 4) [300, 400, 100, 200] ([500, 600, 700, 800] ! i)"
    by (simp add: buffer_of_def in_window_def nth_Cons' All_less_Suc numeral_eq_Suc less_Suc_eq)
  have b: "\<forall>i<nat (n_samples (buffer_of 300 400 3 4)).
      \<not> in_window (buffer_of 300 400 3 4) [100, 200, 300, 400, 0] ([500, 600, 700, 800] ! i)"
    by (simp add: buffer_of_def in_window_def nth_Cons' All_less_Suc numeral_eq_Suc less_Suc_eq)
  show ?thesis
    using sort_data_for_rra_idle[of "[10, 11, 12, 13]" "buffer_of 300 400 1 4"
            "[500, 600, 700, 800]" "[300, 400, 100, 200]" "[1, 2, 3, 4 :: int]", OF _ _ _ _ a]
          sort_data_for_rra_idle[of "[10, 11, 12, 13]" "buffer_of 300 400 3 4"
            "[500, 600, 700, 800]" "[100, 200, 300, 400, 0]" "[1, 2, 3, 4 :: int]", OF _ _ _ _ b]
    by (simp add: buffer_of_def)
qed

text \<open>
  The output is the destination's array also when the gate opens but no destination
  timestamp occurs among the words of the import that the search can read: every
  search then returns \<open>-1\<close>. The search never leaves a window that lies inside its list;
  the merge gives it the upper bound \<open>n_samples\<close>, so the list \<open>time_csv\<close> here is the
  import's timestamps and the word behind them. An import without rows (its arrays
  are zero) thus leaves the destination's array as it is when \<open>file_offset\<close> is the last
  slot, whatever words lie behind the arrays.
\<close>

lemma search_total:
  "0 \<le> l \<Longrightarrow> h < int (length arr) \<Longrightarrow> \<exists>r. search arr l h key = Inr r"
proof (induction arr l h key rule: search.induct)
  case (1 arr l h key)
  note S = search.simps[of arr l h key]
  show ?case
  proof (cases "l > h")
    case True
    then show ?thesis by (simp add: S)
  next
    case False
    define mid where "mid = (l + h) sdiv 2"
    have m: "l \<le> mid" "mid \<le> h"
      using False "1.prems"(1) by (auto simp: mid_def signed_divide_int_def sgn_if)
    define am where "am = arr ! nat mid"
    define al where "al = arr ! nat l"
    define ah where "ah = arr ! nat h"
    have am: "rd arr mid = Inr am" and al: "rd arr l = Inr al" and ah: "rd arr h = Inr ah"
      using m False "1.prems" by (auto simp: rd_def am_def al_def ah_def)
    have l1: "0 \<le> mid + 1" and h1: "mid - 1 < int (length arr)"
      using m "1.prems" by auto
    show ?thesis
    proof (cases "am = key")
      case True
      then show ?thesis using False am by (simp add: S mid_def[symmetric])
    next
      case ne: False
      show ?thesis
      proof (cases "al \<le> am")
        case A: True
        show ?thesis
        proof (cases "key \<ge> al \<and> key \<le> am")
          case A1: True
          from "1.IH"(1)[OF False mid_def am ne al A A1 "1.prems"(1) h1]
          show ?thesis using False am ne al A A1 by (simp add: S mid_def[symmetric])
        next
          case A2: False
          from "1.IH"(2)[OF False mid_def am ne al A A2 l1 "1.prems"(2)]
          show ?thesis using False am ne al A A2 by (auto simp add: S mid_def[symmetric])
        qed
      next
        case B: False
        show ?thesis
        proof (cases "key \<ge> am")
          case ge: True
          show ?thesis
          proof (cases "key \<le> ah")
            case le: True
            from "1.IH"(3)[OF False mid_def am ne al B ge ah le l1 "1.prems"(2)]
            show ?thesis using False am ne al B ge ah le by (simp add: S mid_def[symmetric])
          next
            case nle: False
            from "1.IH"(4)[OF False mid_def am ne al B ge ah nle "1.prems"(1) h1]
            show ?thesis using False am ne al B ge ah nle by (simp add: S mid_def[symmetric])
          qed
        next
          case lt: False
          from "1.IH"(5)[OF False mid_def am ne al B lt "1.prems"(1) h1]
          show ?thesis using False am ne al B lt by (simp add: S mid_def[symmetric])
        qed
      qed
    qed
  qed
qed

lemma search_absent:
  assumes "0 \<le> l" "h < int (length arr)" "key \<notin> set arr"
  shows "search arr l h key = Inr (- 1)"
proof -
  from search_total[OF assms(1,2)] obtain r where r: "search arr l h key = Inr r" by blast
  have "r = - 1"
  proof (rule ccontr)
    assume "r \<noteq> - 1"
    with search_sound[OF r assms(1)]
    have b: "l \<le> r" "r < int (length arr)" and k: "arr ! nat r = key" by auto
    from b assms(1) have "nat r < length arr" by simp
    from nth_mem[OF this] k assms(3) show False by simp
  qed
  with r show ?thesis by simp
qed

lemma merge_loop_absent:
  "0 \<le> i \<Longrightarrow> 0 \<le> n \<Longrightarrow> n < int (length time_csv) \<Longrightarrow> nat n \<le> length time_rra \<Longrightarrow>
   (\<forall>j. nat i \<le> j \<and> j < nat n \<longrightarrow> time_rra ! j \<notin> set time_csv) \<Longrightarrow>
   merge_loop n t_min t_max data_csv time_csv time_rra tmp i = Inr tmp"
proof (induction "nat (n - i)" arbitrary: i)
  case 0
  then have "\<not> i < n" by simp
  then show ?case by (subst merge_loop.simps) simp
next
  case (Suc m)
  then have lt: "i < n" by simp
  have rc: "rd time_csv i = Inr (time_csv ! nat i)"
    and rr: "rd time_rra i = Inr (time_rra ! nat i)"
    using Suc.prems lt by (auto simp: rd_def)
  have "time_rra ! nat i \<notin> set time_csv" using Suc.prems lt by simp
  then have s: "search time_csv 0 n (time_rra ! nat i) = Inr (- 1)"
    using Suc.prems(3) by (intro search_absent) auto
  have "merge_loop n t_min t_max data_csv time_csv time_rra tmp i
      = merge_loop n t_min t_max data_csv time_csv time_rra tmp (i + 1)"
    using lt rc rr s by (subst merge_loop.simps) auto
  also have "\<dots> = Inr tmp"
    using Suc.hyps(2) Suc.prems lt by (intro Suc.hyps(1)) auto
  finally show ?case .
qed

lemma sort_data_for_rra_absent:
  fixes data_csv :: "'v::zero list"
  assumes "length data_rra = nat (n_samples s)" "n_samples s < int (length time_csv)"
    and "nat (n_samples s) \<le> length time_rra"
    and "0 \<le> file_offset s" "file_offset s + 1 < int (length time_rra)"
    and "\<forall>i<nat (n_samples s). time_rra ! i \<notin> set time_csv"
  shows "sort_data_for_rra s data_csv data_rra time_csv time_rra = Inr data_rra"
proof -
  let ?n = "n_samples s"
  have c: "copy_rra ?n data_rra (replicate (nat ?n) 0) 0 = Inr data_rra"
  proof (cases "0 \<le> ?n")
    case True
    then show ?thesis
      using copy_rra_take[of 0 ?n "replicate (nat ?n) 0" data_rra] assms(1) by simp
  next
    case False
    then have "data_rra = []" "\<not> 0 < ?n" using assms(1) by simp_all
    then show ?thesis by (subst copy_rra.simps) simp
  qed
  have r1: "rd time_rra (file_offset s + 1) = Inr (time_rra ! nat (file_offset s + 1))"
    and r2: "rd time_rra (file_offset s) = Inr (time_rra ! nat (file_offset s))"
    using assms(4,5) by (auto simp: rd_def)
  have "merge_loop ?n (time_rra ! nat (file_offset s + 1)) (time_rra ! nat (file_offset s))
          data_csv time_csv time_rra data_rra 0 = Inr data_rra"
  proof (cases "0 \<le> ?n")
    case True
    then show ?thesis using assms(2,3,6) by (intro merge_loop_absent) auto
  next
    case False
    then show ?thesis by (subst merge_loop.simps) simp
  qed
  then show ?thesis by (simp add: sort_data_for_rra_def c r1 r2)
qed

lemma sort_data_for_rra_absent_example:
  "sort_data_for_rra (buffer_of 300 400 3 4) [0, 0, 0, 0, w :: int] [10, 11, 12, 13]
       [0, 0, 0, 0, 0] [100, 200, 300, 400, t] = Inr [10, 11, 12, 13]"
  by (rule sort_data_for_rra_absent)
     (simp_all add: buffer_of_def nth_Cons' All_less_Suc numeral_eq_Suc less_Suc_eq)

text \<open>
  C10. The merge calls \<open>search( time_csv, 0, n_samples, key )\<close>, whose window ends one
  element behind the array. With the import timestamps \<open>[100, 200, 300, 0]\<close> (three
  rows in a buffer of four slots) and the key \<open>400\<close>, the destination timestamp of slot
  \<open>1\<close>, the search reads \<open>arr[4]\<close>; with the upper bound \<open>n_samples - 1\<close> it would
  return \<open>-1\<close>.
\<close>

theorem search_reads_past_import:
  "search [100, 200, 300, 0] 0 4 400 = Inl OutOfBounds
   \<and> search [100, 200, 300, 0] 0 3 400 = Inr (- 1)
   \<and> sort_data_for_rra (buffer_of 300 400 1 4) [1, 2, 3, 0 :: int] [10, 11, 12, 13]
       [100, 200, 300, 0] [300, 400, 100, 200] = Inl OutOfBounds"
  by code_simp

section \<open>Properties of create\_rra\_time\<close>

text \<open>
  What the two loops do when they stay inside the array: \<open>fill_down\<close> fills the slots
  below \<open>j\<close> and \<open>fill_wrap\<close> the slots from \<open>file_offset + 1\<close> up to \<open>j - 1\<close>, each
  slot one interval before the slot above it. For \<open>1 \<le> file_offset \<le> n_samples - 3\<close>
  the function returns the circular timeline: slot \<open>file_offset\<close> holds \<open>timestamp_1\<close>
  and slot \<open>i\<close> lies as many intervals before it as there are steps from \<open>i\<close> up to
  \<open>file_offset\<close>, wrapping from the last slot to slot \<open>0\<close>.
\<close>

lemma fill_down_slots:
  "1 \<le> j \<Longrightarrow> j < int (length t) \<Longrightarrow>
   \<exists>t'. fill_down iv t j = Inr t' \<and> length t' = length t \<and>
     (\<forall>i. 0 \<le> i \<and> i < int (length t) \<longrightarrow>
        t' ! nat i = (if i < j then t ! nat j - (j - i) * iv else t ! nat i))"
proof (induction "nat j" arbitrary: j t)
  case 0
  then show ?case by simp
next
  case (Suc m)
  define t1 where "t1 = t[nat (j - 1) := t ! nat j - iv]"
  have r: "rd t j = Inr (t ! nat j)" using Suc.prems by (simp add: rd_def)
  have w: "wr t (j - 1) (t ! nat j - iv) = Inr t1" using Suc.prems by (simp add: wr_def t1_def)
  have l1: "length t1 = length t" by (simp add: t1_def)
  have at: "t1 ! nat i = (if i = j - 1 then t ! nat j - iv else t ! nat i)"
    if "0 \<le> i" "i < int (length t)" for i
    using that Suc.prems unfolding t1_def by (auto simp: nth_list_update)
  show ?case
  proof (cases "j - 1 > 0")
    case False
    then have j1: "j = 1" using Suc.prems by simp
    have "fill_down iv t j = Inr t1" using r w False by (subst fill_down.simps) simp
    moreover have "\<forall>i. 0 \<le> i \<and> i < int (length t) \<longrightarrow>
        t1 ! nat i = (if i < j then t ! nat j - (j - i) * iv else t ! nat i)"
      using at j1 by auto
    ultimately show ?thesis using l1 by blast
  next
    case True
    have e: "fill_down iv t j = fill_down iv t1 (j - 1)"
      using r w True by (subst fill_down.simps) simp
    have "\<exists>t'. fill_down iv t1 (j - 1) = Inr t' \<and> length t' = length t1 \<and>
     (\<forall>i. 0 \<le> i \<and> i < int (length t1) \<longrightarrow>
        t' ! nat i = (if i < j - 1 then t1 ! nat (j - 1) - (j - 1 - i) * iv else t1 ! nat i))"
      using Suc.hyps(2) Suc.prems True l1 by (intro Suc.hyps(1)) auto
    then obtain t' where t': "fill_down iv t1 (j - 1) = Inr t'" "length t' = length t1"
      and sl: "\<And>i. 0 \<le> i \<Longrightarrow> i < int (length t1) \<Longrightarrow>
        t' ! nat i = (if i < j - 1 then t1 ! nat (j - 1) - (j - 1 - i) * iv else t1 ! nat i)"
      by blast
    have "t' ! nat i = (if i < j then t ! nat j - (j - i) * iv else t ! nat i)"
      if i: "0 \<le> i" "i < int (length t)" for i
    proof -
      have a: "t1 ! nat (j - 1) = t ! nat j - iv" using at[of "j - 1"] True Suc.prems by simp
      have g: "(j - i) * iv = iv + (j - 1 - i) * iv" by (simp add: algebra_simps)
      consider "i < j - 1" | "i = j - 1" | "j \<le> i" by linarith
      then show ?thesis
      proof cases
        case 1
        then show ?thesis using sl[of i] i l1 a g by simp
      next
        case 2
        then show ?thesis using sl[of i] i l1 a by simp
      next
        case 3
        then show ?thesis using sl[of i] i l1 at[OF i] by simp
      qed
    qed
    with t' l1 e show ?thesis by auto
  qed
qed

lemma fill_wrap_slots:
  "0 \<le> fo + 1 \<Longrightarrow> fo + 1 < j \<Longrightarrow> j < int (length t) \<Longrightarrow>
   \<exists>t'. fill_wrap iv fo t j = Inr t' \<and> length t' = length t \<and>
     (\<forall>i. 0 \<le> i \<and> i < int (length t) \<longrightarrow>
        t' ! nat i = (if fo + 1 \<le> i \<and> i < j then t ! nat j - (j - i) * iv else t ! nat i))"
proof (induction "nat (j - fo)" arbitrary: j t)
  case 0
  then show ?case by simp
next
  case (Suc m)
  define t1 where "t1 = t[nat (j - 1) := t ! nat j - iv]"
  have r: "rd t (j - 1 + 1) = Inr (t ! nat j)" using Suc.prems by (simp add: rd_def)
  have w: "wr t (j - 1) (t ! nat j - iv) = Inr t1" using Suc.prems by (simp add: wr_def t1_def)
  have l1: "length t1 = length t" by (simp add: t1_def)
  have at: "t1 ! nat i = (if i = j - 1 then t ! nat j - iv else t ! nat i)"
    if "0 \<le> i" "i < int (length t)" for i
    using that Suc.prems unfolding t1_def by (auto simp: nth_list_update)
  show ?case
  proof (cases "j - 1 > fo + 1")
    case False
    then have j1: "j - 1 = fo + 1" using Suc.prems by simp
    have "fill_wrap iv fo t j = Inr t1" using r w False by (subst fill_wrap.simps) simp
    moreover have "\<forall>i. 0 \<le> i \<and> i < int (length t) \<longrightarrow>
        t1 ! nat i = (if fo + 1 \<le> i \<and> i < j then t ! nat j - (j - i) * iv else t ! nat i)"
      using at j1 by auto
    ultimately show ?thesis using l1 by blast
  next
    case True
    have e: "fill_wrap iv fo t j = fill_wrap iv fo t1 (j - 1)"
      using r w True by (subst fill_wrap.simps) simp
    have "\<exists>t'. fill_wrap iv fo t1 (j - 1) = Inr t' \<and> length t' = length t1 \<and>
     (\<forall>i. 0 \<le> i \<and> i < int (length t1) \<longrightarrow>
        t' ! nat i = (if fo + 1 \<le> i \<and> i < j - 1 then t1 ! nat (j - 1) - (j - 1 - i) * iv
                      else t1 ! nat i))"
      using Suc.hyps(2) Suc.prems True l1 by (intro Suc.hyps(1)) auto
    then obtain t' where t': "fill_wrap iv fo t1 (j - 1) = Inr t'" "length t' = length t1"
      and sl: "\<And>i. 0 \<le> i \<Longrightarrow> i < int (length t1) \<Longrightarrow>
        t' ! nat i = (if fo + 1 \<le> i \<and> i < j - 1 then t1 ! nat (j - 1) - (j - 1 - i) * iv
                      else t1 ! nat i)"
      by blast
    have "t' ! nat i = (if fo + 1 \<le> i \<and> i < j then t ! nat j - (j - i) * iv else t ! nat i)"
      if i: "0 \<le> i" "i < int (length t)" for i
    proof -
      have a: "t1 ! nat (j - 1) = t ! nat j - iv" using at[of "j - 1"] True Suc.prems by simp
      have g: "(j - i) * iv = iv + (j - 1 - i) * iv" by (simp add: algebra_simps)
      consider "fo + 1 \<le> i" "i < j - 1" | "i = j - 1" | "j \<le> i" | "i < fo + 1"
        by linarith
      then show ?thesis
      proof cases
        case 1
        then show ?thesis using sl[of i] i l1 a g by simp
      next
        case 2
        then show ?thesis using sl[of i] i l1 a True by simp
      next
        case 3
        then show ?thesis using sl[of i] i l1 at[OF i] by simp
      next
        case 4
        then show ?thesis using sl[of i] i l1 at[OF i] True by simp
      qed
    qed
    with t' l1 e show ?thesis by auto
  qed
qed

lemma create_rra_time_interior:
  assumes f: "1 \<le> file_offset s" "file_offset s + 3 \<le> n_samples s"
  shows "\<exists>t. create_rra_time s = Inr t \<and> length t = nat (n_samples s) \<and>
     (\<forall>i. 0 \<le> i \<and> i < n_samples s \<longrightarrow>
        t ! nat i = timestamp_1 s
          - (if i \<le> file_offset s then file_offset s - i else file_offset s - i + n_samples s)
            * (timestamp_1 s - timestamp_0 s))"
proof -
  define n where "n = n_samples s"
  define fo where "fo = file_offset s"
  define iv where "iv = timestamp_1 s - timestamp_0 s"
  define ts where "ts = timestamp_1 s"
  define t0 where "t0 = (replicate (nat n) (0::int))[nat fo := ts]"
  have fb: "1 \<le> fo" "fo + 3 \<le> n" using f by (simp_all add: fo_def n_def)
  have l0: "length t0 = nat n" by (simp add: t0_def)
  have w0: "wr (replicate (nat n) (0::int)) fo ts = Inr t0" using fb by (simp add: wr_def t0_def)
  have a0: "t0 ! nat fo = ts" using fb by (simp add: t0_def)
  from fill_down_slots[of fo t0 iv] fb l0
  obtain t1 where t1: "fill_down iv t0 fo = Inr t1" "length t1 = nat n"
    and s1: "\<And>i. 0 \<le> i \<Longrightarrow> i < n \<Longrightarrow>
        t1 ! nat i = (if i < fo then ts - (fo - i) * iv else t0 ! nat i)"
    by (auto simp: a0)
  have r1: "rd t1 0 = Inr (ts - fo * iv)" using s1[of 0] fb t1 by (simp add: rd_def)
  define t2 where "t2 = t1[nat (n - 1) := ts - fo * iv - iv]"
  have w2: "wr t1 (n - 1) (ts - fo * iv - iv) = Inr t2" using fb t1 by (simp add: wr_def t2_def)
  have l2: "length t2 = nat n" using t1 by (simp add: t2_def)
  have a2: "t2 ! nat i = (if i = n - 1 then ts - fo * iv - iv else t1 ! nat i)"
    if "0 \<le> i" "i < n" for i
    using that fb t1 unfolding t2_def by (auto simp: nth_list_update)
  from fill_wrap_slots[of fo "n - 1" t2 iv] fb l2
  obtain t3 where t3: "fill_wrap iv fo t2 (n - 1) = Inr t3" "length t3 = nat n"
    and s3: "\<And>i. 0 \<le> i \<Longrightarrow> i < n \<Longrightarrow>
        t3 ! nat i = (if fo + 1 \<le> i \<and> i < n - 1 then t2 ! nat (n - 1) - (n - 1 - i) * iv
                      else t2 ! nat i)"
    by auto
  have c: "create_rra_time s = Inr t3"
    apply (simp only: create_rra_time_def Let_def)
    apply (simp only: iv_def[symmetric])
    apply (simp add: n_def[symmetric] fo_def[symmetric] ts_def[symmetric] w0 t1 r1 w2 t3)
    done
  have "t3 ! nat i = ts - (if i \<le> fo then fo - i else fo - i + n) * iv"
    if i: "0 \<le> i" "i < n" for i
  proof -
    have z: "t0 ! nat i = 0" if "i \<noteq> fo" using that i fb unfolding t0_def by auto
    have e: "t2 ! nat (n - 1) = ts - fo * iv - iv" using a2[of "n - 1"] fb by simp
    consider "i < fo" | "i = fo" | "fo + 1 \<le> i" "i < n - 1" | "i = n - 1" using i fb by linarith
    then show ?thesis
    proof cases
      case 1
      then show ?thesis using s3[OF i] a2[OF i] s1[OF i] fb by simp
    next
      case 2
      then show ?thesis using s3[OF i] a2[OF i] s1[OF i] fb a0 by simp
    next
      case 3
      then show ?thesis using s3[OF i] e fb by (simp add: algebra_simps)
    next
      case 4
      then have k: "fo - i + n = fo + 1" "\<not> i \<le> fo" using fb by simp_all
      have "t3 ! nat i = ts - fo * iv - iv" using s3[OF i] a2[OF i] 4 fb by simp
      then show ?thesis unfolding if_not_P[OF k(2)] k(1) by (simp add: algebra_simps)
    qed
  qed
  with c t3 show ?thesis unfolding n_def fo_def iv_def ts_def by blast
qed

text \<open>
  C2. For a buffer of four slots with \<open>timestamp_0 = 300\<close> and \<open>timestamp_1 = 400\<close>
  (interval \<open>100\<close>) the function is right when \<open>file_offset = 1\<close>. With \<open>file_offset = 3\<close>,
  the last slot, the assignment \<open>time_rra[n_samples - 1] = time_rra[0] - interval\<close>
  overwrites the newest timestamp and the second loop then overwrites slot \<open>2\<close>; with
  \<open>file_offset = 2\<close> the second loop, which runs its body once before its test,
  overwrites slot \<open>2\<close>; with \<open>file_offset = 0\<close> the first loop, which also runs once before
  its test, stores into \<open>time_rra[-1]\<close>; with \<open>n_samples = 0\<close> the first store is already
  outside the empty array.
\<close>

theorem create_rra_time_boundary_offsets:
  "create_rra_time (buffer_of 300 400 1 4) = Inr [300, 400, 100, 200]
   \<and> create_rra_time (buffer_of 300 400 3 4) = Inr [100, 200, - 100, 0]
   \<and> create_rra_time (buffer_of 300 400 2 4) = Inr [200, 300, 0, 100]
   \<and> create_rra_time (buffer_of 300 400 0 4) = Inl OutOfBounds
   \<and> create_rra_time (buffer_of 300 400 0 0) = Inl OutOfBounds"
  by code_simp

section \<open>Properties of the stream reads\<close>

lemma le_nat_Cons: "le_nat (c # bs) = of_char c + 256 * le_nat bs"
  by (simp add: le_nat_def)
lemma le_nat_Nil: "le_nat [] = 0"
  by (simp add: le_nat_def)

lemma length_enc_nat: "length (enc_nat k u) = k"
  by (simp add: enc_nat_def)

lemma enc_nat_Suc: "enc_nat (Suc k) u = char_of u # enc_nat k (u div 256)"
proof -
  have "[0..<Suc k] = 0 # map Suc [0..<k]" by (simp add: upt_conv_Cons map_Suc_upt del: upt_Suc)
  then show ?thesis by (simp add: enc_nat_def comp_def div_mult2_eq del: upt_Suc)
qed

lemma le_nat_enc_nat: "u < 256 ^ k \<Longrightarrow> le_nat (enc_nat k u) = u"
proof (induction k arbitrary: u)
  case 0
  then show ?case by (simp add: enc_nat_def le_nat_Nil)
next
  case (Suc k)
  then have "u div 256 < 256 ^ k" by (simp add: less_mult_imp_div_less mult.commute)
  from Suc.IH[OF this] show ?case
    by (simp add: enc_nat_Suc le_nat_Cons of_char_of)
qed

lemma length_enc_int: "length (enc_int x) = 4"
  by (simp add: enc_int_def length_enc_nat)

lemma c_int_enc_int: "is_int32 x \<Longrightarrow> c_int (enc_int x) = x"
proof -
  assume a: "is_int32 x"
  have "nat (x mod 4294967296) < 256 ^ 4" by simp
  then have "le_nat (enc_int x) = nat (x mod 4294967296)"
    unfolding enc_int_def by (rule le_nat_enc_nat)
  moreover have "x mod 4294967296 = (if 0 \<le> x then x else x + 4294967296)"
  proof (cases "0 \<le> x")
    case True
    then show ?thesis using a by (simp add: is_int32_def)
  next
    case False
    then have "(x + 4294967296) mod 4294967296 = x + 4294967296"
      using a by (intro mod_pos_pos_trivial) (auto simp: is_int32_def)
    then show ?thesis using False by simp
  qed
  ultimately show ?thesis using a
    by (auto simp: c_int_def is_int32_def Let_def)
qed

lemma fread_int_enc: "is_int32 x \<Longrightarrow> fread_int (enc_int x @ rest) = (1, x, rest)"
  by (simp add: fread_int_def length_enc_int c_int_enc_int)

lemma fread_double_enc: "b < 2 ^ 64 \<Longrightarrow> fread_double (enc_double b @ rest) = (1, b, rest)"
  using le_nat_enc_nat[of b 8]
  by (simp add: fread_double_def enc_double_def length_enc_nat)

lemma fread_bytes_full: "fread_bytes (length str) (str @ rest) = (int (length str), str, rest)"
  by (simp add: fread_bytes_def)

lemma le_nat_bound: "le_nat bs < 256 ^ length bs"
proof (induction bs)
  case Nil
  show ?case by (simp add: le_nat_Nil)
next
  case (Cons c bs)
  have "of_char c < (256::nat)" by simp
  then have "of_char c + 256 * le_nat bs < 256 * (le_nat bs + 1)" by simp
  also have "\<dots> \<le> 256 * 256 ^ length bs" using Cons by (intro mult_le_mono2) simp
  finally show ?case unfolding le_nat_Cons by simp
qed

lemma c_int_short: "length bs < 4 \<Longrightarrow> 0 \<le> c_int bs"
proof -
  assume a: "length bs < 4"
  have "le_nat bs < 256 ^ length bs" by (rule le_nat_bound)
  also have "(256::nat) ^ length bs \<le> 256 ^ 3" using a by (intro power_increasing) auto
  finally show ?thesis by (simp add: c_int_def Let_def)
qed

lemma fread_int_le: "fread_int fp = (c, v, fp') \<Longrightarrow> c \<le> 1"
  by (auto simp: fread_int_def split: if_splits)

lemma fread_int_ext: "fread_int fp = (1, v, fp') \<Longrightarrow> fread_int (fp @ e) = (1, v, fp' @ e)"
  by (auto simp: fread_int_def split: if_splits)

lemma fread_int_some: "fread_int fp = (1, v, fp') \<Longrightarrow> fp \<noteq> []"
  by (auto simp: fread_int_def split: if_splits)

lemma fread_int_rest: "fread_int fp = (c, v, fp') \<Longrightarrow> fp' \<noteq> [] \<Longrightarrow> c = 1"
  by (auto simp: fread_int_def split: if_splits)

lemma fread_double_ext:
  "fread_double fp = (c, v, fp') \<Longrightarrow> fp' \<noteq> [] \<Longrightarrow> fread_double (fp @ e) = (c, v, fp' @ e)"
  by (auto simp: fread_double_def split: if_splits)

lemma fread_int_ext':
  "fread_int fp = (c, v, fp') \<Longrightarrow> fp' \<noteq> [] \<Longrightarrow> fread_int (fp @ e) = (c, v, fp' @ e)"
  by (auto simp: fread_int_def split: if_splits)

lemma fread_int_tail: "fread_int fp = (c, v, fp') \<Longrightarrow> fp' \<noteq> [] \<Longrightarrow> fp \<noteq> []"
  by (auto simp: fread_int_def)

lemma fread_double_tail: "fread_double fp = (c, v, fp') \<Longrightarrow> fp' \<noteq> [] \<Longrightarrow> fp \<noteq> []"
  by (auto simp: fread_double_def)

lemma rcs_long:
  "4 \<le> length fp \<Longrightarrow> read_counted_string fp =
     (if c_int (take 4 fp) < 0 then Inl BadLength
      else Inr (1 + int (min (nat (c_int (take 4 fp))) (length fp - 4)), c_int (take 4 fp),
                take (nat (c_int (take 4 fp))) (drop 4 fp)
                  @ replicate (nat (c_int (take 4 fp)) - (length fp - 4)) (CHR 0x00),
                drop (nat (c_int (take 4 fp))) (drop 4 fp)))"
  by (simp add: read_counted_string_def fread_int_def fread_bytes_def)

lemma rcs_short: "length fp < 4 \<Longrightarrow> read_counted_string fp = Inr (0, c_int fp, [], [])"
  by (simp add: read_counted_string_def fread_int_def)

lemma rcs_parts:
  assumes "read_counted_string fp = Inr (c, len, buf, fp')" "4 \<le> length fp"
  shows "0 \<le> len \<and> len = c_int (take 4 fp) \<and> c = 1 + int (min (nat len) (length fp - 4))
     \<and> buf = take (nat len) (drop 4 fp) @ replicate (nat len - (length fp - 4)) (CHR 0x00)
     \<and> fp' = drop (nat len) (drop 4 fp)"
proof -
  define L where "L = c_int (take 4 fp)"
  define B where "B = take (nat L) (drop 4 fp) @ replicate (nat L - (length fp - 4)) (CHR 0x00)"
  define F where "F = drop (nat L) (drop 4 fp)"
  define C where "C = 1 + int (min (nat L) (length fp - 4))"
  have R: "read_counted_string fp = (if L < 0 then Inl BadLength else Inr (C, L, B, F))"
    unfolding L_def B_def F_def C_def by (rule rcs_long[OF assms(2)])
  have nl: "\<not> L < 0"
  proof
    assume "L < 0"
    with R have "read_counted_string fp = Inl BadLength" by simp
    with assms(1) show False by simp
  qed
  with R have "read_counted_string fp = Inr (C, L, B, F)" by simp
  with assms(1) have "Inr (c, len, buf, fp') = (Inr (C, L, B, F) :: error + _)" by simp
  then have "c = C" "len = L" "buf = B" "fp' = F" by blast+
  with nl show ?thesis unfolding L_def B_def F_def C_def by simp
qed

lemma rcs_le:
  assumes "read_counted_string fp = Inr (c, len, buf, fp')"
  shows "c \<le> 1 + len \<and> 0 \<le> len"
proof (cases "4 \<le> length fp")
  case True
  from rcs_parts[OF assms True] show ?thesis by linarith
next
  case False
  then have s: "length fp < 4" by simp
  from assms rcs_short[OF s] have "c = 0" "len = c_int fp" by simp_all
  with c_int_short[OF s] show ?thesis by simp
qed

lemma rcs_full:
  assumes "read_counted_string fp = Inr (1 + len, len, buf, fp')"
  shows "4 \<le> length fp" and "c_int (take 4 fp) = len" and "0 \<le> len"
    and "nat len \<le> length fp - 4"
    and "buf = take (nat len) (drop 4 fp)" and "fp' = drop (nat len) (drop 4 fp)"
proof -
  have l: "4 \<le> length fp"
  proof (rule ccontr)
    assume "\<not> 4 \<le> length fp"
    then have s: "length fp < 4" by simp
    from assms rcs_short[OF s] have "1 + len = 0" "len = c_int fp" by simp_all
    with c_int_short[OF s] show False by simp
  qed
  note p = rcs_parts[OF assms l]
  from p have n: "nat len \<le> length fp - 4" by linarith
  then have r: "replicate (nat len - (length fp - 4)) (CHR 0x00) = []" by simp
  show "4 \<le> length fp" by fact
  show "c_int (take 4 fp) = len" using p by blast
  show "0 \<le> len" using p by blast
  show "nat len \<le> length fp - 4" by fact
  have "buf = take (nat len) (drop 4 fp) @ replicate (nat len - (length fp - 4)) (CHR 0x00)"
    using p by blast
  then show "buf = take (nat len) (drop 4 fp)" unfolding r by simp
  show "fp' = drop (nat len) (drop 4 fp)" using p by blast
qed

lemma rcs_ext:
  assumes "read_counted_string fp = Inr (1 + len, len, buf, fp')"
  shows "read_counted_string (fp @ e) = Inr (1 + len, len, buf, fp' @ e)"
proof -
  note f = rcs_full[OF assms]
  have l: "4 \<le> length (fp @ e)" using f(1) by simp
  have t: "take 4 (fp @ e) = take 4 fp" using f(1) by simp
  have m: "min (nat len) (length (fp @ e) - 4) = nat len" using f(1,4) by simp
  have r: "nat len - (length (fp @ e) - 4) = 0" using f(1,4) by simp
  have d: "drop (nat len) (drop 4 (fp @ e)) = fp' @ e" unfolding f(6) using f(1,4) by simp
  have b: "take (nat len) (drop 4 (fp @ e)) = buf" unfolding f(5) using f(1,4) by simp
  show ?thesis unfolding rcs_long[OF l] t f(2) m r d b using f(3) by simp
qed

lemma rcs_some: "read_counted_string fp = Inr (1 + len, len, buf, fp') \<Longrightarrow> fp \<noteq> []"
  using rcs_full(1)[of fp len buf fp'] by auto

lemma rcs_enc:
  "is_int32 (int (length str)) \<Longrightarrow>
   read_counted_string (enc_string str @ rest) = Inr (1 + int (length str), int (length str), str, rest)"
  by (simp add: read_counted_string_def enc_string_def fread_int_enc fread_bytes_full)

lemma read_string_enc:
  "is_int32 (int (length str)) \<Longrightarrow>
   read_string (enc_string str @ rest) = Inr (int (length str), str, rest)"
  by (simp add: read_string_def enc_string_def fread_int_enc fread_bytes_full)

lemma read_lead_ext:
  "read_lead k fp = (u0, u1, u2, v, d, fa) \<Longrightarrow> fa \<noteq> [] \<Longrightarrow>
   read_lead k (fp @ e) = (u0, u1, u2, v, d, fa @ e)"
proof (cases k)
  case True
  assume a: "read_lead k fp = (u0, u1, u2, v, d, fa)" and ne: "fa \<noteq> []"
  obtain c0 x0 f1 where r0: "fread_int fp = (c0, x0, f1)" by (cases "fread_int fp")
  obtain c1 x1 f2 where r1: "fread_int f1 = (c1, x1, f2)" by (cases "fread_int f1")
  obtain c2 x2 f3 where r2: "fread_int f2 = (c2, x2, f3)" by (cases "fread_int f2")
  from a True r0 r1 r2 have eq: "u0 = x0" "u1 = x1" "u2 = x2" "v = 0" "d = 0" "fa = f3"
    by (simp_all add: read_lead_def)
  have n2: "f2 \<noteq> []" using fread_int_tail[OF r2] ne eq by simp
  have n1: "f1 \<noteq> []" using fread_int_tail[OF r1 n2] .
  show ?thesis using True eq ne
    fread_int_ext'[OF r0 n1, of e] fread_int_ext'[OF r1 n2, of e] fread_int_ext'[OF r2, of e]
    by (simp add: read_lead_def)
next
  case False
  assume a: "read_lead k fp = (u0, u1, u2, v, d, fa)" and ne: "fa \<noteq> []"
  obtain c0 x0 f1 where r0: "fread_double fp = (c0, x0, f1)" by (cases "fread_double fp")
  obtain c1 x1 f2 where r1: "fread_double f1 = (c1, x1, f2)" by (cases "fread_double f1")
  from a False r0 r1 have eq: "u0 = 0" "u1 = 0" "u2 = 0" "v = x0" "d = x1" "fa = f2"
    by (simp_all add: read_lead_def)
  have n1: "f1 \<noteq> []" using fread_double_tail[OF r1] ne eq by simp
  show ?thesis using False eq ne
    fread_double_ext[OF r0 n1, of e] fread_double_ext[OF r1, of e]
    by (simp add: read_lead_def)
qed


lemma read_subset_parts:
  assumes "read_subset k fp = Inr (sub, cnt, fp9)"
  obtains u0 u1 u2 v d fa c1 t0 fp1 c2 t1 fp2 c3 msb fp3 cb bl bs fp4
    c4 fo fp5 c5 ns fp6 c6 u3 fp7 ci il ivs fp8 cc cl cs
  where "read_lead k fp = (u0, u1, u2, v, d, fa)"
    and "fread_int fa = (c1, t0, fp1)" and "fread_int fp1 = (c2, t1, fp2)"
    and "fread_int fp2 = (c3, msb, fp3)"
    and "read_counted_string fp3 = Inr (cb, bl, bs, fp4)"
    and "fread_int fp4 = (c4, fo, fp5)" and "fread_int fp5 = (c5, ns, fp6)"
    and "fread_int fp6 = (c6, u3, fp7)"
    and "read_counted_string fp7 = Inr (ci, il, ivs, fp8)"
    and "read_counted_string fp8 = Inr (cc, cl, cs, fp9)"
    and "sub = \<lparr>unk_0 = u0, unk_1 = u1, unk_2 = u2, value_bits = v, divider_bits = d,
              timestamp_0 = t0, timestamp_1 = t1, minSamplesPerBin = msb,
              binL_len = bl, binLength = bs, file_offset = fo, n_samples = ns, unk_3 = u3,
              int_len = il, interval = ivs, cons_len = cl, consolidator = cs,
              next_sub = None\<rparr>"
    and "cnt = c1 + c2 + c3 + cb + c4 + c5 + c6 + ci + cc"
  using assms unfolding read_subset_def
  by (auto split: prod.splits sum.splits)

lemma read_subset_compose:
  assumes "read_lead k fp = (u0, u1, u2, v, d, fa)"
    and "fread_int fa = (c1, t0, fp1)" and "fread_int fp1 = (c2, t1, fp2)"
    and "fread_int fp2 = (c3, msb, fp3)"
    and "read_counted_string fp3 = Inr (cb, bl, bs, fp4)"
    and "fread_int fp4 = (c4, fo, fp5)" and "fread_int fp5 = (c5, ns, fp6)"
    and "fread_int fp6 = (c6, u3, fp7)"
    and "read_counted_string fp7 = Inr (ci, il, ivs, fp8)"
    and "read_counted_string fp8 = Inr (cc, cl, cs, fp9)"
  shows "read_subset k fp = Inr (\<lparr>unk_0 = u0, unk_1 = u1, unk_2 = u2, value_bits = v, divider_bits = d,
              timestamp_0 = t0, timestamp_1 = t1, minSamplesPerBin = msb,
              binL_len = bl, binLength = bs, file_offset = fo, n_samples = ns, unk_3 = u3,
              int_len = il, interval = ivs, cons_len = cl, consolidator = cs,
              next_sub = None\<rparr>, c1 + c2 + c3 + cb + c4 + c5 + c6 + ci + cc, fp9)"
  unfolding read_subset_def using assms by simp

lemma read_subset_ext:
  assumes rs: "read_subset k fp = Inr (sub, cnt, fp9)"
    and full: "cons_len sub + int_len sub + binL_len sub + 9 \<le> cnt"
  shows "read_subset k (fp @ e) = Inr (sub, cnt, fp9 @ e)"
proof -
  from rs obtain u0 u1 u2 v d fa c1 t0 fp1 c2 t1 fp2 c3 msb fp3 cb bl bs fp4
    c4 fo fp5 c5 ns fp6 c6 u3 fp7 ci il ivs fp8 cc cl cs
  where p: "read_lead k fp = (u0, u1, u2, v, d, fa)"
    "fread_int fa = (c1, t0, fp1)" "fread_int fp1 = (c2, t1, fp2)"
    "fread_int fp2 = (c3, msb, fp3)"
    "read_counted_string fp3 = Inr (cb, bl, bs, fp4)"
    "fread_int fp4 = (c4, fo, fp5)" "fread_int fp5 = (c5, ns, fp6)"
    "fread_int fp6 = (c6, u3, fp7)"
    "read_counted_string fp7 = Inr (ci, il, ivs, fp8)"
    "read_counted_string fp8 = Inr (cc, cl, cs, fp9)"
    and sub: "sub = \<lparr>unk_0 = u0, unk_1 = u1, unk_2 = u2, value_bits = v, divider_bits = d,
              timestamp_0 = t0, timestamp_1 = t1, minSamplesPerBin = msb,
              binL_len = bl, binLength = bs, file_offset = fo, n_samples = ns, unk_3 = u3,
              int_len = il, interval = ivs, cons_len = cl, consolidator = cs,
              next_sub = None\<rparr>"
    and cnt: "cnt = c1 + c2 + c3 + cb + c4 + c5 + c6 + ci + cc"
    by (rule read_subset_parts)
  have b: "c1 \<le> 1" "c2 \<le> 1" "c3 \<le> 1" "c4 \<le> 1" "c5 \<le> 1" "c6 \<le> 1"
    "cb \<le> 1 + bl" "ci \<le> 1 + il" "cc \<le> 1 + cl"
    using p fread_int_le rcs_le by blast+
  from full have "cl + il + bl + 9 \<le> c1 + c2 + c3 + cb + c4 + c5 + c6 + ci + cc"
    unfolding sub cnt by simp
  with b have e: "c1 = 1" "c2 = 1" "c3 = 1" "c4 = 1" "c5 = 1" "c6 = 1"
    "cb = 1 + bl" "ci = 1 + il" "cc = 1 + cl" by linarith+
  note q = p[unfolded e]
  have "fa \<noteq> []" using fread_int_some[OF q(2)] .
  note x = read_lead_ext[OF q(1) this, of e] fread_int_ext[OF q(2), of e]
    fread_int_ext[OF q(3), of e] fread_int_ext[OF q(4), of e] rcs_ext[OF q(5), of e]
    fread_int_ext[OF q(6), of e] fread_int_ext[OF q(7), of e] fread_int_ext[OF q(8), of e]
    rcs_ext[OF q(9), of e] rcs_ext[OF q(10), of e]
  show ?thesis
    using read_subset_compose[OF x] unfolding sub cnt e by simp
qed

lemma read_lead_enc:
  "valid_subset k r \<Longrightarrow>
   read_lead k
     ((if k then enc_int (unk_0 r) @ enc_int (unk_1 r) @ enc_int (unk_2 r)
       else enc_double (value_bits r) @ enc_double (divider_bits r)) @ rest)
   = (unk_0 r, unk_1 r, unk_2 r, value_bits r, divider_bits r, rest)"
  by (cases k) (simp_all add: valid_subset_def read_lead_def fread_int_enc fread_double_enc)

lemma read_subset_enc:
  assumes "valid_subset k r"
  shows "read_subset k (enc_subset k r @ rest) =
     Inr (r\<lparr>next_sub := None\<rparr>, 9 + binL_len r + int_len r + cons_len r, rest)"
proof -
  have v: "is_int32 (timestamp_0 r)" "is_int32 (timestamp_1 r)" "is_int32 (minSamplesPerBin r)"
    "is_int32 (file_offset r)" "is_int32 (n_samples r)" "is_int32 (unk_3 r)"
    "binL_len r = int (length (binLength r))" "is_int32 (int (length (binLength r)))"
    "int_len r = int (length (interval r))" "is_int32 (int (length (interval r)))"
    "cons_len r = int (length (consolidator r))" "is_int32 (int (length (consolidator r)))"
    using assms by (auto simp: valid_subset_def)
  have "read_subset k (enc_subset k r @ rest) =
     Inr (\<lparr>unk_0 = unk_0 r, unk_1 = unk_1 r, unk_2 = unk_2 r, value_bits = value_bits r,
            divider_bits = divider_bits r,
            timestamp_0 = timestamp_0 r, timestamp_1 = timestamp_1 r,
            minSamplesPerBin = minSamplesPerBin r,
            binL_len = int (length (binLength r)), binLength = binLength r,
            file_offset = file_offset r, n_samples = n_samples r, unk_3 = unk_3 r,
            int_len = int (length (interval r)), interval = interval r,
            cons_len = int (length (consolidator r)), consolidator = consolidator r,
            next_sub = None\<rparr>,
          1 + 1 + 1 + (1 + int (length (binLength r))) + 1 + 1 + 1
            + (1 + int (length (interval r))) + (1 + int (length (consolidator r))), rest)"
    unfolding enc_subset_def append_assoc
    by (rule read_subset_compose, rule read_lead_enc[OF assms],
        rule fread_int_enc[OF v(1)], rule fread_int_enc[OF v(2)], rule fread_int_enc[OF v(3)],
        rule rcs_enc[OF v(8)],
        rule fread_int_enc[OF v(4)], rule fread_int_enc[OF v(5)], rule fread_int_enc[OF v(6)],
        rule rcs_enc[OF v(10)], rule rcs_enc[OF v(12)])
  also have "\<dots> = Inr (r\<lparr>next_sub := None\<rparr>, 9 + binL_len r + int_len r + cons_len r, rest)"
    using v(7,9,11) by simp
  finally show ?thesis .
qed

lemma rcs_err:
  assumes "read_counted_string fp = Inl err"
  shows "fp \<noteq> []" and "read_counted_string (fp @ e) = Inl err"
proof -
  have l: "4 \<le> length fp"
  proof (rule ccontr)
    assume "\<not> 4 \<le> length fp"
    then have "length fp < 4" by simp
    from rcs_short[OF this] assms show False by simp
  qed
  then show "fp \<noteq> []" by auto
  from assms rcs_long[OF l] have n: "c_int (take 4 fp) < 0" and er: "err = BadLength"
    by (auto split: if_splits)
  have l': "4 \<le> length (fp @ e)" using l by simp
  have t: "take 4 (fp @ e) = take 4 fp" using l by simp
  show "read_counted_string (fp @ e) = Inl err"
    unfolding rcs_long[OF l'] t er using n by simp
qed

lemma rcs_ext':
  assumes "read_counted_string fp = Inr (c, len, buf, fp')" "fp' \<noteq> []"
  shows "read_counted_string (fp @ e) = Inr (c, len, buf, fp' @ e)" and "fp \<noteq> []"
proof -
  have l: "4 \<le> length fp"
  proof (rule ccontr)
    assume "\<not> 4 \<le> length fp"
    then have "length fp < 4" by simp
    from rcs_short[OF this] assms show False by simp
  qed
  then show "fp \<noteq> []" by auto
  note p = rcs_parts[OF assms(1) l]
  from p assms(2) have "nat len < length fp - 4" by auto
  with p have "c = 1 + len" by linarith
  with assms(1) have "read_counted_string fp = Inr (1 + len, len, buf, fp')" by simp
  from rcs_ext[OF this, of e] \<open>c = 1 + len\<close>
  show "read_counted_string (fp @ e) = Inr (c, len, buf, fp' @ e)" by simp
qed

lemma read_lead_total: "\<exists>u0 u1 u2 v d fa. read_lead k fp = (u0, u1, u2, v, d, fa)"
  by (cases "read_lead k fp") auto

lemma read_subset_prefix_ok:
  assumes full: "read_subset k (t @ e) = Inr X"
  shows "\<exists>Y. read_subset k t = Inr Y"
proof (rule ccontr)
  assume "\<not> (\<exists>Y. read_subset k t = Inr Y)"
  then obtain err where bad: "read_subset k t = Inl err" by (cases "read_subset k t") auto
  obtain u0 u1 u2 v d fa where L: "read_lead k t = (u0, u1, u2, v, d, fa)"
    using read_lead_total by blast
  obtain c1 t0 fp1 where A1: "fread_int fa = (c1, t0, fp1)" by (cases "fread_int fa")
  obtain c2 t1 fp2 where A2: "fread_int fp1 = (c2, t1, fp2)" by (cases "fread_int fp1")
  obtain c3 msb fp3 where A3: "fread_int fp2 = (c3, msb, fp3)" by (cases "fread_int fp2")
  show False
  proof (cases "read_counted_string fp3")
    case (Inl x)
    note n3 = rcs_err(1)[OF Inl]
    note n2 = fread_int_tail[OF A3 n3]
    note n1 = fread_int_tail[OF A2 n2]
    note x = read_lead_ext[OF L fread_int_tail[OF A1 n1], of e] fread_int_ext'[OF A1 n1, of e]
      fread_int_ext'[OF A2 n2, of e] fread_int_ext'[OF A3 n3, of e] rcs_err(2)[OF Inl, of e]
    have "read_subset k (t @ e) = Inl x" unfolding read_subset_def by (simp add: x)
    with full show False by simp
  next
    case (Inr y)
    then obtain cb bl bs fp4 where B: "read_counted_string fp3 = Inr (cb, bl, bs, fp4)"
      by (cases y) auto
    obtain c4 fo fp5 where A4: "fread_int fp4 = (c4, fo, fp5)" by (cases "fread_int fp4")
    obtain c5 ns fp6 where A5: "fread_int fp5 = (c5, ns, fp6)" by (cases "fread_int fp5")
    obtain c6 u3 fp7 where A6: "fread_int fp6 = (c6, u3, fp7)" by (cases "fread_int fp6")
    show False
    proof (cases "read_counted_string fp7")
      case (Inl x)
      note n7 = rcs_err(1)[OF Inl]
      note n6 = fread_int_tail[OF A6 n7]
      note n5 = fread_int_tail[OF A5 n6]
      note n4 = fread_int_tail[OF A4 n5]
      note n3 = rcs_ext'(2)[OF B n4]
      note n2 = fread_int_tail[OF A3 n3]
      note n1 = fread_int_tail[OF A2 n2]
      note x = read_lead_ext[OF L fread_int_tail[OF A1 n1], of e] fread_int_ext'[OF A1 n1, of e]
        fread_int_ext'[OF A2 n2, of e] fread_int_ext'[OF A3 n3, of e] rcs_ext'(1)[OF B n4, of e]
        fread_int_ext'[OF A4 n5, of e] fread_int_ext'[OF A5 n6, of e] fread_int_ext'[OF A6 n7, of e]
        rcs_err(2)[OF Inl, of e]
      have "read_subset k (t @ e) = Inl x" unfolding read_subset_def by (simp add: x)
      with full show False by simp
    next
      case (Inr z)
      then obtain ci il ivs fp8 where C: "read_counted_string fp7 = Inr (ci, il, ivs, fp8)"
        by (cases z) auto
      show False
      proof (cases "read_counted_string fp8")
        case (Inl x)
        note n8 = rcs_err(1)[OF Inl]
        note n7 = rcs_ext'(2)[OF C n8]
        note n6 = fread_int_tail[OF A6 n7]
        note n5 = fread_int_tail[OF A5 n6]
        note n4 = fread_int_tail[OF A4 n5]
        note n3 = rcs_ext'(2)[OF B n4]
        note n2 = fread_int_tail[OF A3 n3]
        note n1 = fread_int_tail[OF A2 n2]
        note x = read_lead_ext[OF L fread_int_tail[OF A1 n1], of e] fread_int_ext'[OF A1 n1, of e]
          fread_int_ext'[OF A2 n2, of e] fread_int_ext'[OF A3 n3, of e] rcs_ext'(1)[OF B n4, of e]
          fread_int_ext'[OF A4 n5, of e] fread_int_ext'[OF A5 n6, of e] fread_int_ext'[OF A6 n7, of e]
          rcs_ext'(1)[OF C n8, of e] rcs_err(2)[OF Inl, of e]
        have "read_subset k (t @ e) = Inl x" unfolding read_subset_def by (simp add: x)
        with full show False by simp
      next
        case (Inr w)
        then obtain cc cl cs fp9 where D: "read_counted_string fp8 = Inr (cc, cl, cs, fp9)"
          by (cases w) auto
        from read_subset_compose[OF L A1 A2 A3 B A4 A5 A6 C D] bad show False by simp
      qed
    qed
  qed
qed

lemma read_subset_truncated:
  assumes v: "valid_subset k r" and t: "strict_prefix t (enc_subset k r)"
  shows "\<exists>sub cnt fp'. read_subset k t = Inr (sub, cnt, fp')
      \<and> cnt < cons_len sub + int_len sub + binL_len sub + 9"
proof -
  from t obtain e where e: "enc_subset k r = t @ e" "e \<noteq> []"
    by (auto simp: strict_prefix_def prefix_def)
  have full: "read_subset k (t @ e) =
      Inr (r\<lparr>next_sub := None\<rparr>, 9 + binL_len r + int_len r + cons_len r, [])"
    using read_subset_enc[OF v, of "[]"] e by simp
  from read_subset_prefix_ok[OF full] obtain sub cnt fp' where
    p: "read_subset k t = Inr (sub, cnt, fp')" by (metis prod_cases3)
  have "cnt < cons_len sub + int_len sub + binL_len sub + 9"
  proof (rule ccontr)
    assume "\<not> cnt < cons_len sub + int_len sub + binL_len sub + 9"
    then have "cons_len sub + int_len sub + binL_len sub + 9 \<le> cnt" by simp
    from read_subset_ext[OF p this, of e] full have "fp' @ e = []" by simp
    with e show False by simp
  qed
  with p show ?thesis by blast
qed

section \<open>Properties of the loaders\<close>

subsection \<open>The import load\<close>

text \<open>
  \<open>fgets\<close> returns a line that is shorter than its buffer, newline included.
\<close>

lemma fgets_all_line:
  "CHR 0x0A \<notin> set l \<Longrightarrow> length cur + length l < n - 1 \<Longrightarrow>
   fgets_all n cur (l @ CHR 0x0A # rest) = (cur @ l @ [CHR 0x0A]) # fgets_all n [] rest"
  by (induction l arbitrary: cur) auto

text \<open>
  The decimal text of a number consists of digits, has at most ten of them for a 32-bit
  number, and its value is the number.
\<close>

lemma isdigit_char_of: "m < 10 \<Longrightarrow> isdigit (char_of (48 + (m::nat)))"
  by (simp add: isdigit_def)

lemma dec_digits_isdigit: "c \<in> set (dec_digits k n) \<Longrightarrow> isdigit c"
  by (induction k n arbitrary: c rule: dec_digits.induct)
     (auto simp: isdigit_char_of split: if_splits)

lemma dec_digits_ne: "0 < k \<Longrightarrow> dec_digits k n \<noteq> []"
  by (cases k) auto

lemma dec_digits_length: "0 < m \<Longrightarrow> n < 10 ^ m \<Longrightarrow> length (dec_digits k n) \<le> m"
proof (induction k n arbitrary: m rule: dec_digits.induct)
  case (1 n)
  then show ?case by simp
next
  case (2 k n)
  show ?case
  proof (cases "n < 10")
    case True
    with 2 show ?thesis by simp
  next
    case False
    then obtain m' where m: "m = Suc m'" using 2 by (cases m) auto
    with False 2 have "0 < m'" by (cases m') auto
    moreover have "n div 10 < 10 ^ m'" using 2 m by (simp add: less_mult_imp_div_less mult.commute)
    ultimately have "length (dec_digits k (n div 10)) \<le> m'" using 2 False by simp
    with False m show ?thesis by simp
  qed
qed

lemma digits_val_snoc: "digits_val (ds @ [c]) = 10 * digits_val ds + (int (of_char c) - 48)"
  by (simp add: digits_val_def)

lemma dec_digits_val: "n < k \<Longrightarrow> digits_val (dec_digits k n) = int n"
proof (induction k n rule: dec_digits.induct)
  case (1 n)
  then show ?case by simp
next
  case (2 k n)
  show ?case
  proof (cases "n < 10")
    case True
    then show ?thesis by (simp add: digits_val_def)
  next
    case False
    then have "n div 10 < k" using 2 by simp
    then have "digits_val (dec_digits k (n div 10)) = int (n div 10)" using 2 False by simp
    moreover have "10 * int (n div 10) + int (n mod 10) = int n"
      by presburger
    ultimately show ?thesis using False by (simp add: digits_val_snoc)
  qed
qed

text \<open>
  \<open>%d\<close> converts the decimal text of a 32-bit number to that number and stops behind
  its last digit.
\<close>

lemma isdigit_not:
  "isdigit c \<Longrightarrow> \<not> isspace c \<and> c \<noteq> CHR 0x0A \<and> c \<noteq> CHR 0x00 \<and> c \<noteq> CHR ''-''
     \<and> c \<noteq> CHR ''+'' \<and> c \<noteq> CHR '',''"
  by (auto simp: isdigit_def isspace_def)

lemma takeWhile_all: "\<forall>c\<in>set ds. P c \<Longrightarrow> r = [] \<or> \<not> P (hd r) \<Longrightarrow> takeWhile P (ds @ r) = ds"
  by (cases r) (auto simp: takeWhile_append2)

lemma dropWhile_all: "\<forall>c\<in>set ds. P c \<Longrightarrow> r = [] \<or> \<not> P (hd r) \<Longrightarrow> dropWhile P (ds @ r) = r"
  by (cases r) (auto simp: dropWhile_append2)

lemma int32_conv: "is_int32 x \<Longrightarrow> long_to_int (strtol_range x) = x"
  by (simp add: is_int32_def long_to_int_def strtol_range_def)

lemma scan_d_digits:
  assumes "ds \<noteq> []" "\<forall>c\<in>set ds. isdigit c" "r = [] \<or> \<not> isdigit (hd r)"
  shows "scan_d (ds @ r) = Some (long_to_int (strtol_range (digits_val ds)), r)"
    and "scan_d (CHR ''-'' # ds @ r) = Some (long_to_int (strtol_range (- digits_val ds)), r)"
proof -
  obtain d ds' where d: "ds = d # ds'" using assms(1) by (cases ds) auto
  then have dd: "isdigit d" using assms(2) by simp
  note n = isdigit_not[OF dd]
  have t: "takeWhile isdigit (ds @ r) = ds"
    using assms(2,3) by (rule takeWhile_all)
  have dr: "dropWhile isdigit (ds @ r) = r"
    using assms(2,3) by (rule dropWhile_all)
  have s: "dropWhile isspace (ds @ r) = ds @ r" using d n by simp
  show "scan_d (ds @ r) = Some (long_to_int (strtol_range (digits_val ds)), r)"
    unfolding scan_d_def s Let_def using t dr assms(1) d n by simp
  have s': "dropWhile isspace (CHR ''-'' # ds @ r) = CHR ''-'' # ds @ r"
    by (simp add: isspace_def)
  show "scan_d (CHR ''-'' # ds @ r) = Some (long_to_int (strtol_range (- digits_val ds)), r)"
    unfolding scan_d_def s' Let_def using t dr assms(1) by simp
qed

lemma scan_d_dec:
  assumes "is_int32 x" "r = [] \<or> \<not> isdigit (hd r)"
  shows "scan_d (dec x @ r) = Some (x, r)"
proof (cases "x < 0")
  case True
  let ?ds = "dec_digits (Suc (nat (- x))) (nat (- x))"
  have "scan_d (CHR ''-'' # ?ds @ r) = Some (long_to_int (strtol_range (- digits_val ?ds)), r)"
    using dec_digits_isdigit by (intro scan_d_digits(2) dec_digits_ne assms(2)) blast+
  moreover have "digits_val ?ds = - x" using True by (simp add: dec_digits_val del: dec_digits.simps)
  ultimately show ?thesis using True assms(1) by (simp add: dec_def int32_conv)
next
  case False
  let ?ds = "dec_digits (Suc (nat x)) (nat x)"
  have "scan_d (?ds @ r) = Some (long_to_int (strtol_range (digits_val ?ds)), r)"
    using dec_digits_isdigit by (intro scan_d_digits(1) dec_digits_ne assms(2)) blast+
  moreover have "digits_val ?ds = x" using False by (simp add: dec_digits_val del: dec_digits.simps)
  ultimately show ?thesis using False assms(1) by (simp add: dec_def int32_conv)
qed

text \<open>
  An import file written from rows of 32-bit numbers is read back line by line, and
  \<open>sscanf\<close> converts each line to its row.
\<close>

lemma dec_chars: "c \<in> set (dec x) \<Longrightarrow> c \<noteq> CHR 0x0A \<and> c \<noteq> CHR 0x00"
  using isdigit_not[of c] by (auto simp: dec_def simp del: dec_digits.simps dest: dec_digits_isdigit split: if_splits)

lemma dec_length: "is_int32 x \<Longrightarrow> length (dec x) \<le> 11"
proof -
  assume a: "is_int32 x"
  have "length (dec_digits k (nat \<bar>x\<bar>)) \<le> 10" for k
    by (rule dec_digits_length) (use a in \<open>auto simp: is_int32_def\<close>)
  from this[of "Suc (nat (- x))"] this[of "Suc (nat x)"] show ?thesis
    by (auto simp: dec_def abs_if simp del: dec_digits.simps split: if_splits)
qed

lemma c_str_csv_line: "c_str (csv_line row) = csv_line row"
proof -
  have "\<forall>c\<in>set (csv_line row). c \<noteq> CHR 0x00"
    using dec_chars by (auto simp: csv_line_def)
  then show ?thesis unfolding c_str_def by (simp add: takeWhile_eq_all_conv)
qed

lemma fgets_all_csv_text:
  "\<forall>row\<in>set rows. is_int32 (fst row) \<and> is_int32 (snd row) \<Longrightarrow>
   fgets_all LINE_LEN [] (csv_text rows) = map csv_line rows"
proof (induction rows)
  case Nil
  then show ?case by (simp add: csv_text_def)
next
  case (Cons row rows)
  let ?l = "dec (fst row) @ [CHR '',''] @ dec (snd row)"
  have nl: "CHR 0x0A \<notin> set ?l" using dec_chars by auto
  have len: "length [] + length ?l < LINE_LEN - 1"
    using dec_length[of "fst row"] dec_length[of "snd row"] Cons.prems
    by (simp add: LINE_LEN_def)
  have "csv_text (row # rows) = ?l @ CHR 0x0A # csv_text rows"
    by (simp add: csv_text_def csv_line_def)
  then have "fgets_all LINE_LEN [] (csv_text (row # rows))
      = ([] @ ?l @ [CHR 0x0A]) # fgets_all LINE_LEN [] (csv_text rows)"
    using fgets_all_line[OF nl len] by simp
  then show ?case using Cons by (simp add: csv_line_def)
qed

lemma scan_d_csv_line:
  "is_int32 (fst row) \<Longrightarrow>
   scan_d (c_str (csv_line row)) = Some (fst row, CHR '','' # dec (snd row) @ [CHR 0x0A])"
  using scan_d_dec[of "fst row" "CHR '','' # dec (snd row) @ [CHR 0x0A]"]
  unfolding c_str_csv_line by (simp add: csv_line_def isdigit_def)

lemma sscanf_time_csv_line:
  "is_int32 (fst row) \<Longrightarrow> sscanf_time (c_str (csv_line row)) time_tmp = fst row"
  by (simp add: sscanf_time_def scan_d_csv_line)

lemma sscanf_row_csv_line_fst:
  "is_int32 (fst row) \<Longrightarrow> fst (sscanf_row conv (c_str (csv_line row)) tv) = fst row"
  by (simp add: sscanf_row_def scan_d_csv_line split: option.splits)

lemma sscanf_row_csv_line:
  "is_int32 (fst row) \<Longrightarrow> is_int32 (snd row) \<Longrightarrow>
   sscanf_row conv_d (c_str (csv_line row)) tv = row"
  using scan_d_dec[of "snd row" "[CHR 0x0A]"]
  by (cases row) (simp add: sscanf_row_def scan_d_csv_line conv_d_def isdigit_def)


text \<open>
  The loops on such a file: when the slots from \<open>j\<close> on suffice for the rows the cutoff
  keeps, the rows are stored in file order from slot \<open>j\<close> on; when they do not, a store
  is outside the block.
\<close>

lemma csv_time_loop_kept:
  "\<forall>row\<in>set rows. is_int32 (fst row) \<Longrightarrow> 0 \<le> j \<Longrightarrow>
   nat j + length (kept_rows mx rows) \<le> length arr \<Longrightarrow>
   csv_time_loop mx arr j time_tmp (map csv_line rows) =
     Inr (take (nat j) arr @ map fst (kept_rows mx rows)
          @ drop (nat j + length (kept_rows mx rows)) arr)"
proof (induction rows arbitrary: arr j time_tmp)
  case Nil
  then show ?case by (simp add: kept_rows_def)
next
  case (Cons r rows)
  obtain t v where r: "r = (t, v)" by (cases r)
  have sc: "sscanf_time (c_str (csv_line r)) time_tmp = t"
    using Cons.prems(1) r by (simp add: sscanf_time_csv_line)
  have rest: "\<forall>row\<in>set rows. is_int32 (fst row)" using Cons.prems(1) by simp
  show ?case
  proof (cases "t \<le> mx")
    case False
    then have k: "kept_rows mx (r # rows) = kept_rows mx rows" using r by (simp add: kept_rows_def)
    have "csv_time_loop mx arr j time_tmp (map csv_line (r # rows))
        = csv_time_loop mx arr j t (map csv_line rows)"
      using False by (simp add: sc)
    also have "\<dots> = Inr (take (nat j) arr @ map fst (kept_rows mx rows)
          @ drop (nat j + length (kept_rows mx rows)) arr)"
      by (rule Cons.IH[OF rest Cons.prems(2) Cons.prems(3)[unfolded k]])
    finally show ?thesis by (simp add: k)
  next
    case True
    have k: "kept_rows mx (r # rows) = (t, v) # kept_rows mx rows"
      using True r by (simp add: kept_rows_def)
    have jl: "nat j < length arr" using Cons.prems k by simp
    then have w: "wr arr j t = Inr (arr[nat j := t])" using Cons.prems by (simp add: wr_def)
    have "csv_time_loop mx arr j time_tmp (map csv_line (r # rows))
        = csv_time_loop mx (arr[nat j := t]) (j + 1) t (map csv_line rows)"
      using True w by (simp add: sc)
    also have "\<dots> = Inr (take (nat (j + 1)) (arr[nat j := t]) @ map fst (kept_rows mx rows)
          @ drop (nat (j + 1) + length (kept_rows mx rows)) (arr[nat j := t]))"
      using Cons.prems k rest by (intro Cons.IH) (auto simp: nat_add_distrib)
    also have "take (nat (j + 1)) (arr[nat j := t]) = take (nat j) arr @ [t]"
      using Cons.prems jl by (simp add: nat_add_distrib take_Suc_conv_app_nth)
    also have "drop (nat (j + 1) + length (kept_rows mx rows)) (arr[nat j := t])
        = drop (nat j + length (kept_rows mx (r # rows))) arr"
      using Cons.prems k by (simp add: nat_add_distrib)
    finally show ?thesis by (simp add: k)
  qed
qed

lemma csv_data_loop_kept:
  "\<forall>row\<in>set rows. is_int32 (fst row) \<and> is_int32 (snd row) \<Longrightarrow> 0 \<le> j \<Longrightarrow>
   nat j + length (kept_rows mx rows) \<le> length arr \<Longrightarrow>
   csv_data_loop conv_d mx arr j tv (map csv_line rows) =
     Inr (take (nat j) arr @ map snd (kept_rows mx rows)
          @ drop (nat j + length (kept_rows mx rows)) arr)"
proof (induction rows arbitrary: arr j tv)
  case Nil
  then show ?case by (simp add: kept_rows_def)
next
  case (Cons r rows)
  obtain t v where r: "r = (t, v)" by (cases r)
  have sc: "sscanf_row conv_d (c_str (csv_line r)) tv = (t, v)"
    using Cons.prems(1) r by (simp add: sscanf_row_csv_line)
  have rest: "\<forall>row\<in>set rows. is_int32 (fst row) \<and> is_int32 (snd row)"
    using Cons.prems(1) by simp
  show ?case
  proof (cases "t \<le> mx")
    case False
    then have k: "kept_rows mx (r # rows) = kept_rows mx rows" using r by (simp add: kept_rows_def)
    have "csv_data_loop conv_d mx arr j tv (map csv_line (r # rows))
        = csv_data_loop conv_d mx arr j (t, v) (map csv_line rows)"
      using False by (simp add: sc)
    also have "\<dots> = Inr (take (nat j) arr @ map snd (kept_rows mx rows)
          @ drop (nat j + length (kept_rows mx rows)) arr)"
      by (rule Cons.IH[OF rest Cons.prems(2) Cons.prems(3)[unfolded k]])
    finally show ?thesis by (simp add: k)
  next
    case True
    have k: "kept_rows mx (r # rows) = (t, v) # kept_rows mx rows"
      using True r by (simp add: kept_rows_def)
    have jl: "nat j < length arr" using Cons.prems k by simp
    then have w: "wr arr j v = Inr (arr[nat j := v])" using Cons.prems by (simp add: wr_def)
    have "csv_data_loop conv_d mx arr j tv (map csv_line (r # rows))
        = csv_data_loop conv_d mx (arr[nat j := v]) (j + 1) (t, v) (map csv_line rows)"
      using True w by (simp add: sc)
    also have "\<dots> = Inr (take (nat (j + 1)) (arr[nat j := v]) @ map snd (kept_rows mx rows)
          @ drop (nat (j + 1) + length (kept_rows mx rows)) (arr[nat j := v]))"
      using Cons.prems k rest by (intro Cons.IH) (auto simp: nat_add_distrib)
    also have "take (nat (j + 1)) (arr[nat j := v]) = take (nat j) arr @ [v]"
      using Cons.prems jl by (simp add: nat_add_distrib take_Suc_conv_app_nth)
    also have "drop (nat (j + 1) + length (kept_rows mx rows)) (arr[nat j := v])
        = drop (nat j + length (kept_rows mx (r # rows))) arr"
      using Cons.prems k by (simp add: nat_add_distrib)
    finally show ?thesis by (simp add: k)
  qed
qed

lemma csv_time_loop_overflow:
  "\<forall>row\<in>set rows. is_int32 (fst row) \<Longrightarrow> 0 \<le> j \<Longrightarrow> nat j \<le> length arr \<Longrightarrow>
   length arr < nat j + length (kept_rows mx rows) \<Longrightarrow>
   csv_time_loop mx arr j time_tmp (map csv_line rows) = Inl OutOfBounds"
proof (induction rows arbitrary: arr j time_tmp)
  case Nil
  then show ?case by (simp add: kept_rows_def)
next
  case (Cons r rows)
  have sc: "sscanf_time (c_str (csv_line r)) time_tmp = fst r"
    using Cons.prems(1) by (simp add: sscanf_time_csv_line)
  have rest: "\<forall>row\<in>set rows. is_int32 (fst row)" using Cons.prems(1) by simp
  show ?case
  proof (cases "fst r \<le> mx")
    case False
    then have k: "kept_rows mx (r # rows) = kept_rows mx rows"
      by (cases r) (simp add: kept_rows_def)
    have "csv_time_loop mx arr j (fst r) (map csv_line rows) = Inl OutOfBounds"
      by (rule Cons.IH[OF rest Cons.prems(2,3) Cons.prems(4)[unfolded k]])
    then show ?thesis using False by (simp add: sc)
  next
    case True
    then have k: "length (kept_rows mx (r # rows)) = Suc (length (kept_rows mx rows))"
      by (cases r) (simp add: kept_rows_def)
    show ?thesis
    proof (cases "nat j < length arr")
      case False
      then have "wr arr j (fst r) = Inl OutOfBounds" by (auto simp: wr_def)
      then show ?thesis using True by (simp add: sc)
    next
      case lt: True
      then have w: "wr arr j (fst r) = Inr (arr[nat j := fst r])"
        using Cons.prems(2) by (simp add: wr_def)
      have "csv_time_loop mx (arr[nat j := fst r]) (j + 1) (fst r) (map csv_line rows)
          = Inl OutOfBounds"
        using Cons.prems(2,3,4) rest k lt by (intro Cons.IH) (auto simp: nat_add_distrib)
      then show ?thesis using True w by (simp add: sc)
    qed
  qed
qed

lemma csv_data_loop_overflow:
  "\<forall>row\<in>set rows. is_int32 (fst row) \<Longrightarrow> 0 \<le> j \<Longrightarrow> nat j \<le> length arr \<Longrightarrow>
   length arr < nat j + length (kept_rows mx rows) \<Longrightarrow>
   csv_data_loop conv mx arr j tv (map csv_line rows) = Inl OutOfBounds"
proof (induction rows arbitrary: arr j tv)
  case Nil
  then show ?case by (simp add: kept_rows_def)
next
  case (Cons r rows)
  let ?tv = "sscanf_row conv (c_str (csv_line r)) tv"
  have sc: "fst ?tv = fst r"
    using Cons.prems(1) by (simp add: sscanf_row_csv_line_fst)
  have rest: "\<forall>row\<in>set rows. is_int32 (fst row)" using Cons.prems(1) by simp
  show ?case
  proof (cases "fst r \<le> mx")
    case False
    then have k: "kept_rows mx (r # rows) = kept_rows mx rows"
      by (cases r) (simp add: kept_rows_def)
    have "csv_data_loop conv mx arr j ?tv (map csv_line rows) = Inl OutOfBounds"
      by (rule Cons.IH[OF rest Cons.prems(2,3) Cons.prems(4)[unfolded k]])
    then show ?thesis using False by (simp add: sc)
  next
    case True
    then have k: "length (kept_rows mx (r # rows)) = Suc (length (kept_rows mx rows))"
      by (cases r) (simp add: kept_rows_def)
    show ?thesis
    proof (cases "nat j < length arr")
      case False
      then have "wr arr j (snd ?tv) = Inl OutOfBounds" by (auto simp: wr_def)
      then show ?thesis using True by (simp add: sc)
    next
      case lt: True
      then have w: "wr arr j (snd ?tv) = Inr (arr[nat j := snd ?tv])"
        using Cons.prems(2) by (simp add: wr_def)
      have "csv_data_loop conv mx (arr[nat j := snd ?tv]) (j + 1) ?tv (map csv_line rows)
          = Inl OutOfBounds"
        using Cons.prems(2,3,4) rest k lt by (intro Cons.IH) (auto simp: nat_add_distrib)
      then show ?thesis using True w by (simp add: sc)
    qed
  qed
qed

text \<open>
  So, for an import file of rows of 32-bit numbers: when at most \<open>n_samples\<close> rows have
  \<open>timestamp <= cutoff\<close>, both functions return \<open>n_samples\<close> slots, which hold exactly
  those rows in file order, followed by zeros; with more such rows they store outside
  the block of \<open>n_samples\<close> elements.
\<close>

lemma import_load_keeps_rows:
  assumes "\<forall>row\<in>set rows. is_int32 (fst row) \<and> is_int32 (snd row)"
    and "length (kept_rows cutoff rows) \<le> nat (n_samples s)"
  shows "read_csv_time (Some (csv_text rows)) s cutoff time_tmp =
           Inr (map fst (kept_rows cutoff rows)
                @ replicate (nat (n_samples s) - length (kept_rows cutoff rows)) 0)"
    and "is_integer data \<Longrightarrow>
         read_csv_data conv_lf (Some (csv_text rows)) data s cutoff t int_tmp dble_tmp =
           Inr (IntSamples (map snd (kept_rows cutoff rows)
                @ replicate (nat (n_samples s) - length (kept_rows cutoff rows)) 0))"
proof -
  have f: "\<forall>row\<in>set rows. is_int32 (fst row)" using assms(1) by simp
  show "read_csv_time (Some (csv_text rows)) s cutoff time_tmp =
           Inr (map fst (kept_rows cutoff rows)
                @ replicate (nat (n_samples s) - length (kept_rows cutoff rows)) 0)"
    using csv_time_loop_kept[OF f, of 0 cutoff "replicate (nat (n_samples s)) 0" time_tmp] assms(2)
    by (simp add: read_csv_time_def fgets_all_csv_text[OF assms(1)])
  show "read_csv_data conv_lf (Some (csv_text rows)) data s cutoff t int_tmp dble_tmp =
           Inr (IntSamples (map snd (kept_rows cutoff rows)
                @ replicate (nat (n_samples s) - length (kept_rows cutoff rows)) 0))"
    if "is_integer data"
    using csv_data_loop_kept[OF assms(1), of 0 cutoff "replicate (nat (n_samples s)) 0" "(t, int_tmp)"]
      assms(2) that
    by (simp add: read_csv_data_def fgets_all_csv_text[OF assms(1)])
qed

lemma import_load_overflow:
  assumes "\<forall>row\<in>set rows. is_int32 (fst row) \<and> is_int32 (snd row)"
    and "nat (n_samples s) < length (kept_rows cutoff rows)"
  shows "read_csv_time (Some (csv_text rows)) s cutoff time_tmp = Inl OutOfBounds"
    and "read_csv_data conv_lf (Some (csv_text rows)) data s cutoff t int_tmp dble_tmp
           = Inl OutOfBounds"
proof -
  have f: "\<forall>row\<in>set rows. is_int32 (fst row)" using assms(1) by simp
  show "read_csv_time (Some (csv_text rows)) s cutoff time_tmp = Inl OutOfBounds"
    using csv_time_loop_overflow[OF f, of 0 "replicate (nat (n_samples s)) 0" cutoff time_tmp]
      assms(2)
    by (simp add: read_csv_time_def fgets_all_csv_text[OF assms(1)])
  show "read_csv_data conv_lf (Some (csv_text rows)) data s cutoff t int_tmp dble_tmp
           = Inl OutOfBounds"
    using csv_data_loop_overflow[OF f, of 0 "replicate (nat (n_samples s)) 0" cutoff conv_d "(t, int_tmp)"]
      csv_data_loop_overflow[OF f, of 0 "replicate (nat (n_samples s)) 0" cutoff conv_lf "(t, dble_tmp)"]
      assms(2)
    by (simp add: read_csv_data_def fgets_all_csv_text[OF assms(1)])
qed

text \<open>
  A line on which \<open>%d\<close> finds no number, such as an empty line, stores nothing into
  \<open>time_tmp\<close>: the timestamp of the previous line is tested and appended once more. A
  timestamp outside the range of \<open>int\<close> is stored with its low 32 bits, and so passes the
  cutoff when those are negative.
\<close>

lemma fgets_ex:
  "fgets_all LINE_LEN [] (''100,1'' @ [CHR 0x0A, CHR 0x0A] @ ''200,2'' @ [CHR 0x0A])
     = [''100,1'' @ [CHR 0x0A], [CHR 0x0A], ''200,2'' @ [CHR 0x0A]]"
  "fgets_all LINE_LEN [] (''3000000000,1'' @ [CHR 0x0A] @ ''100,2'' @ [CHR 0x0A])
     = [''3000000000,1'' @ [CHR 0x0A], ''100,2'' @ [CHR 0x0A]]"
  by (simp_all add: LINE_LEN_def)

lemma sscanf_time_ex:
  "sscanf_time (c_str (''100,1'' @ [CHR 0x0A])) x = 100"
  "sscanf_time (c_str [CHR 0x0A]) x = x"
  "sscanf_time (c_str (''200,2'' @ [CHR 0x0A])) x = 200"
  "sscanf_time (c_str (''100,2'' @ [CHR 0x0A])) x = 100"
  "sscanf_time (c_str (''3000000000,1'' @ [CHR 0x0A])) x = - 1294967296"
  by (simp_all add: sscanf_time_def c_str_def scan_d_def isspace_def isdigit_def digits_val_def
        strtol_range_def long_to_int_def Let_def)

lemma read_csv_time_unconverted_line:
  "read_csv_time (Some (''100,1'' @ [CHR 0x0A, CHR 0x0A] @ ''200,2'' @ [CHR 0x0A]))
       (buffer_of 300 400 1 4) 250 time_tmp = Inr [100, 100, 200, 0]"
  "read_csv_time (Some (''3000000000,1'' @ [CHR 0x0A] @ ''100,2'' @ [CHR 0x0A]))
       (buffer_of 300 400 1 4) 250 time_tmp = Inr [- 1294967296, 100, 0, 0]"
  unfolding read_csv_time_def option.case fgets_ex
  by (simp_all add: sscanf_time_ex[unfolded append_Cons append_Nil] buffer_of_def wr_def
        numeral_eq_Suc)

text \<open>
  C9. Neither function compares the index \<open>j\<close> with \<open>n_samples\<close>. For an import file
  of the three rows \<open>100,1\<close>, \<open>200,2\<close> and \<open>300,3\<close>, all kept by the cutoff \<open>300\<close>, and a
  buffer of two slots, the third row is stored at index \<open>2\<close>, outside the block of
  \<open>n_samples\<close> elements, by \<open>read_csv_time\<close> and, for either sample kind, by
  \<open>read_csv_data\<close>. On the same file under the cutoff \<open>250\<close>, in a buffer of four
  slots, the timestamps kept are \<open>100\<close> and \<open>200\<close>, in that order.
\<close>

theorem import_load_stores_past_n_samples:
  "read_csv_time (Some (csv_text [(100, 1), (200, 2), (300, 3)])) (buffer_of 300 400 1 2) 300
       time_tmp = Inl OutOfBounds
   \<and> read_csv_data conv_lf (Some (csv_text [(100, 1), (200, 2), (300, 3)])) data
       (buffer_of 300 400 1 2) 300 t int_tmp dble_tmp = Inl OutOfBounds
   \<and> read_csv_time (Some (csv_text [(100, 1), (200, 2), (300, 3)])) (buffer_of 300 400 1 4) 250
       time_tmp = Inr [100, 200, 0, 0]"
proof -
  let ?rows = "[(100, 1), (200, 2), (300, 3)] :: (int \<times> int) list"
  have i: "\<forall>row\<in>set ?rows. is_int32 (fst row) \<and> is_int32 (snd row)"
    by (simp add: is_int32_def)
  have k3: "kept_rows 300 ?rows = ?rows" and k2: "kept_rows 250 ?rows = [(100, 1), (200, 2)]"
    by (simp_all add: kept_rows_def)
  have n2: "nat (n_samples (buffer_of 300 400 1 2)) < length (kept_rows 300 ?rows)"
    by (simp add: k3 buffer_of_def)
  have n4: "length (kept_rows 250 ?rows) \<le> nat (n_samples (buffer_of 300 400 1 4))"
    by (simp add: k2 buffer_of_def)
  show ?thesis
    using import_load_overflow[OF i n2] import_load_keeps_rows(1)[OF i n4]
    by (simp add: k2 buffer_of_def numeral_eq_Suc)
qed

subsection \<open>The archive-native load\<close>

lemma fread_int_Nil: "fread_int [] = (0, 0, [])"
  by (simp add: fread_int_def c_int_def le_nat_def)

lemma fread_double_Nil: "fread_double [] = (0, 0, [])"
  by (simp add: fread_double_def le_nat_def)

lemma rra_int_loop_elems:
  "list_all is_int32 xs \<Longrightarrow> 0 \<le> j \<Longrightarrow> j \<le> n \<Longrightarrow> length arr = nat n \<Longrightarrow>
   rra_int_loop n arr j (ints_file xs) =
     Inr (take (nat j) arr @ take (nat (n - j)) xs @ replicate (nat (n - j) - length xs) 0)"
proof (induction "nat (n - j)" arbitrary: j arr xs)
  case 0
  then have "j = n" by simp
  with 0 show ?case by (subst rra_int_loop.simps) simp
next
  case (Suc m)
  then have lt: "j < n" by simp
  have nj: "nat (n - j) = Suc (nat (n - (j + 1)))" using lt by simp
  have tk: "take (nat (j + 1)) (arr[nat j := x]) = take (nat j) arr @ [x]" for x
    using Suc.prems lt by (simp add: nat_add_distrib take_Suc_conv_app_nth)
  show ?case
  proof (cases xs)
    case Nil
    have w: "wr arr j 0 = Inr (arr[nat j := 0])" using Suc.prems lt by (simp add: wr_def)
    have "rra_int_loop n arr j (ints_file xs) = rra_int_loop n (arr[nat j := 0]) (j + 1) (ints_file [])"
      using lt w Nil by (subst rra_int_loop.simps) (simp add: ints_file_def fread_int_Nil)
    also have "\<dots> = Inr (take (nat (j + 1)) (arr[nat j := 0])
        @ take (nat (n - (j + 1))) [] @ replicate (nat (n - (j + 1)) - length ([]::int list)) 0)"
      using Suc.hyps(2) Suc.prems lt by (intro Suc.hyps(1)) auto
    finally show ?thesis using Nil by (simp add: tk nj)
  next
    case (Cons x xs')
    have x: "is_int32 x" "list_all is_int32 xs'" using Suc.prems Cons by simp_all
    have w: "wr arr j x = Inr (arr[nat j := x])" using Suc.prems lt by (simp add: wr_def)
    have "rra_int_loop n arr j (ints_file xs) = rra_int_loop n (arr[nat j := x]) (j + 1) (ints_file xs')"
      using lt w Cons by (subst rra_int_loop.simps) (simp add: ints_file_def fread_int_enc[OF x(1)])
    also have "\<dots> = Inr (take (nat (j + 1)) (arr[nat j := x])
        @ take (nat (n - (j + 1))) xs' @ replicate (nat (n - (j + 1)) - length xs') 0)"
      using Suc.hyps(2) Suc.prems lt x by (intro Suc.hyps(1)) auto
    finally show ?thesis using Cons by (simp add: tk nj)
  qed
qed

lemma rra_dble_loop_elems:
  "list_all (\<lambda>d. d < 2 ^ 64) xs \<Longrightarrow> 0 \<le> j \<Longrightarrow> j \<le> n \<Longrightarrow> length arr = nat n \<Longrightarrow>
   rra_dble_loop n arr j (dbles_file xs) =
     Inr (take (nat j) arr @ take (nat (n - j)) xs @ replicate (nat (n - j) - length xs) 0)"
proof (induction "nat (n - j)" arbitrary: j arr xs)
  case 0
  then have "j = n" by simp
  with 0 show ?case by (subst rra_dble_loop.simps) simp
next
  case (Suc m)
  then have lt: "j < n" by simp
  have nj: "nat (n - j) = Suc (nat (n - (j + 1)))" using lt by simp
  have tk: "take (nat (j + 1)) (arr[nat j := x]) = take (nat j) arr @ [x]" for x
    using Suc.prems lt by (simp add: nat_add_distrib take_Suc_conv_app_nth)
  show ?case
  proof (cases xs)
    case Nil
    have w: "wr arr j 0 = Inr (arr[nat j := 0])" using Suc.prems lt by (simp add: wr_def)
    have "rra_dble_loop n arr j (dbles_file xs) = rra_dble_loop n (arr[nat j := 0]) (j + 1) (dbles_file [])"
      using lt w Nil by (subst rra_dble_loop.simps) (simp add: dbles_file_def fread_double_Nil)
    also have "\<dots> = Inr (take (nat (j + 1)) (arr[nat j := 0])
        @ take (nat (n - (j + 1))) [] @ replicate (nat (n - (j + 1)) - length ([]::nat list)) 0)"
      using Suc.hyps(2) Suc.prems lt by (intro Suc.hyps(1)) auto
    finally show ?thesis using Nil by (simp add: tk nj)
  next
    case (Cons x xs')
    have x: "x < 2 ^ 64" "list_all (\<lambda>d. d < 2 ^ 64) xs'" using Suc.prems Cons by simp_all
    have w: "wr arr j x = Inr (arr[nat j := x])" using Suc.prems lt by (simp add: wr_def)
    have "rra_dble_loop n arr j (dbles_file xs) = rra_dble_loop n (arr[nat j := x]) (j + 1) (dbles_file xs')"
      using lt w Cons by (subst rra_dble_loop.simps) (simp add: dbles_file_def fread_double_enc[OF x(1)])
    also have "\<dots> = Inr (take (nat (j + 1)) (arr[nat j := x])
        @ take (nat (n - (j + 1))) xs' @ replicate (nat (n - (j + 1)) - length xs') 0)"
      using Suc.hyps(2) Suc.prems lt x by (intro Suc.hyps(1)) auto
    finally show ?thesis using Cons by (simp add: tk nj)
  qed
qed

lemma read_rra_file_ints:
  assumes "list_all is_int32 xs" "is_integer data"
  shows "read_rra_file (Some (ints_file xs)) data s =
     Inr (IntSamples (take (nat (n_samples s)) xs @ replicate (nat (n_samples s) - length xs) 0))"
proof (cases "0 \<le> n_samples s")
  case True
  from rra_int_loop_elems[OF assms(1), of 0 "n_samples s" "replicate (nat (n_samples s)) 0"] True
  show ?thesis using assms(2) by (simp add: read_rra_file_def)
next
  case False
  then have "rra_int_loop (n_samples s) [] 0 (ints_file xs) = Inr []"
    by (subst rra_int_loop.simps) simp
  with False assms(2) show ?thesis by (simp add: read_rra_file_def)
qed

lemma read_rra_file_dbles:
  assumes "list_all (\<lambda>d. d < 2 ^ 64) ds" "\<not> is_integer data"
  shows "read_rra_file (Some (dbles_file ds)) data s =
     Inr (DbleSamples (take (nat (n_samples s)) ds @ replicate (nat (n_samples s) - length ds) 0))"
proof (cases "0 \<le> n_samples s")
  case True
  from rra_dble_loop_elems[OF assms(1), of 0 "n_samples s" "replicate (nat (n_samples s)) 0"] True
  show ?thesis using assms(2) by (simp add: read_rra_file_def)
next
  case False
  then have "rra_dble_loop (n_samples s) [] 0 (dbles_file ds) = Inr []"
    by (subst rra_dble_loop.simps) simp
  with False assms(2) show ?thesis by (simp add: read_rra_file_def)
qed

lemma is_integer_device_of:
  "is_integer (device_of uuid ''integer'')" "\<not> is_integer (device_of uuid ''double'')"
  by (simp_all add: is_integer_def device_of_def c_str_def)

text \<open>
  C8 (as amended). The archive-native load fails with \<open>IoError\<close> only when the file
  cannot be opened. From a file of whole elements it returns \<open>n_samples\<close> elements
  in slot order: the first \<open>n_samples\<close> elements of the file when it holds that many,
  and otherwise all its elements followed by zeros, without an error.
\<close>

theorem read_rra_file_loads:
  assumes "list_all is_int32 xs" "list_all (\<lambda>d. d < 2 ^ 64) ds"
  shows "read_rra_file None data s = Inl IoError
     \<and> (is_integer data \<longrightarrow> read_rra_file (Some (ints_file xs)) data s =
           Inr (IntSamples (take (nat (n_samples s)) xs
                            @ replicate (nat (n_samples s) - length xs) 0)))
     \<and> (\<not> is_integer data \<longrightarrow> read_rra_file (Some (dbles_file ds)) data s =
           Inr (DbleSamples (take (nat (n_samples s)) ds
                             @ replicate (nat (n_samples s) - length ds) 0)))"
  using read_rra_file_ints[OF assms(1)] read_rra_file_dbles[OF assms(2)]
  by (simp add: read_rra_file_def)

theorem read_rra_file_loads_witness:
  "read_rra_file None (device_of ''abc'' ''integer'') (buffer_of 0 0 0 2) = Inl IoError
   \<and> read_rra_file (Some (ints_file [7, 8, 9])) (device_of ''abc'' ''integer'') (buffer_of 0 0 0 2)
       = Inr (IntSamples [7, 8])
   \<and> read_rra_file (Some (dbles_file [5])) (device_of ''abc'' ''double'') (buffer_of 0 0 0 2)
       = Inr (DbleSamples [5, 0])"
proof -
  have a: "list_all is_int32 [7, 8, 9]" "list_all (\<lambda>d. d < 2 ^ 64) [5 :: nat]"
    by (simp_all add: is_int32_def)
  have n: "nat (n_samples (buffer_of 0 0 0 2)) = 2" by (simp add: buffer_of_def)
  from read_rra_file_loads[OF a, of "device_of ''abc'' ''integer''" "buffer_of 0 0 0 2"]
    read_rra_file_loads[OF a, of "device_of ''abc'' ''double''" "buffer_of 0 0 0 2"]
  show ?thesis by (simp add: is_integer_device_of n numeral_eq_Suc)
qed

text \<open>
  C8 as the claim states it fails: a file shorter than declared is not an error. A
  file of one element for a buffer of two slots gives that element and a zero.
\<close>

theorem read_rra_file_short_counterexample:
  "read_rra_file (Some (ints_file [7])) (device_of ''abc'' ''integer'') (buffer_of 0 0 0 2)
     = Inr (IntSamples [7, 0])"
proof -
  have a: "list_all is_int32 [7]" by (simp add: is_int32_def)
  have n: "nat (n_samples (buffer_of 0 0 0 2)) = 2" by (simp add: buffer_of_def)
  from read_rra_file_ints[OF a is_integer_device_of(1), of "''abc''" "buffer_of 0 0 0 2"]
  show ?thesis by (simp add: n numeral_eq_Suc)
qed

section \<open>Properties of the decoder\<close>

lemma length_linked: "length rs \<le> N_SUBSETS \<Longrightarrow> length (linked rs) = N_SUBSETS"
  by (simp add: linked_def)

lemma linked_nth:
  "i < length rs \<Longrightarrow> linked rs ! i =
     Some ((rs ! i)\<lparr>next_sub := (if Suc i < length rs then Some (Suc i) else None)\<rparr>)"
  by (simp add: linked_def nth_append)

lemma linked_nth_None: "length rs \<le> i \<Longrightarrow> i < N_SUBSETS \<Longrightarrow> linked rs ! i = None"
  by (simp add: linked_def nth_append)

lemma linked_Nil: "linked [] = replicate N_SUBSETS None"
  by (simp add: linked_def)

lemma set_next_linked:
  assumes "ps \<noteq> []" "length ps \<le> N_SUBSETS"
  shows "set_next (linked ps) (int (length ps) - 1) nx =
     Inr ((linked ps)[length ps - 1 := Some ((last ps)\<lparr>next_sub := nx\<rparr>)])"
proof -
  define j where "j = length ps - 1"
  have j: "j < length ps" "j < N_SUBSETS" using assms unfolding j_def by (cases ps; simp)+
  have i: "int (length ps) - 1 = int j" using assms unfolding j_def by (cases ps) auto
  have r: "rd (linked ps) (int j) = Inr (linked ps ! j)"
    using j assms by (simp add: rd_def length_linked)
  have l: "last ps = ps ! j" using assms unfolding j_def by (simp add: last_conv_nth)
  have n: "linked ps ! j = Some ((ps ! j)\<lparr>next_sub := (if Suc j < length ps then Some (Suc j) else None)\<rparr>)"
    using j by (simp add: linked_nth)
  show ?thesis unfolding i set_next_def r n j_def[symmetric] l by simp
qed

lemma link_prev_linked:
  assumes "length ps \<le> N_SUBSETS"
  shows "link_prev (linked ps) (length ps) = Inr (relinked ps)"
proof (cases "ps = []")
  case True
  then show ?thesis by (simp add: link_prev_def relinked_def)
next
  case False
  then have "0 < length ps" by simp
  then show ?thesis using set_next_linked[OF False assms, of "Some (length ps)"] False
    by (simp add: link_prev_def relinked_def)
qed

lemma length_relinked: "length ps \<le> N_SUBSETS \<Longrightarrow> length (relinked ps) = N_SUBSETS"
  by (simp add: relinked_def length_linked)

lemma relinked_nth:
  "length ps \<le> N_SUBSETS \<Longrightarrow> i < N_SUBSETS \<Longrightarrow> relinked ps ! i =
     (if i < length ps then Some ((ps ! i)\<lparr>next_sub := Some (Suc i)\<rparr>) else None)"
proof -
  assume a: "length ps \<le> N_SUBSETS" "i < N_SUBSETS"
  show ?thesis
  proof (cases "ps = []")
    case True
    then show ?thesis using a by (simp add: relinked_def linked_nth_None)
  next
    case False
    define j where "j = length ps - 1"
    have j: "length ps = Suc j" using False unfolding j_def by (cases ps) auto
    have l: "last ps = ps ! j" using False unfolding j_def by (simp add: last_conv_nth)
    have r: "relinked ps = (linked ps)[j := Some ((ps ! j)\<lparr>next_sub := Some (Suc j)\<rparr>)]"
      using False by (simp add: relinked_def j_def[symmetric] l j)
    consider "i = j" | "i < j" | "i > j" by linarith
    then show ?thesis
    proof cases
      case 1 then show ?thesis unfolding r using a j by (simp add: length_linked)
    next
      case 2 then show ?thesis unfolding r using a j by (simp add: length_linked linked_nth)
    next
      case 3 then show ?thesis unfolding r using a j by (simp add: length_linked linked_nth_None)
    qed
  qed
qed

lemma linked_snoc:
  assumes "length ps < N_SUBSETS"
  shows "(relinked ps)[length ps := Some (r\<lparr>next_sub := None\<rparr>)] = linked (ps @ [r])"
proof (rule nth_equalityI)
  show "length ((relinked ps)[length ps := Some (r\<lparr>next_sub := None\<rparr>)]) = length (linked (ps @ [r]))"
    using assms by (simp add: length_linked length_relinked)
next
  fix i assume "i < length ((relinked ps)[length ps := Some (r\<lparr>next_sub := None\<rparr>)])"
  then have i: "i < N_SUBSETS" using assms by (simp add: length_relinked)
  consider "i = length ps" | "i > length ps" | "i < length ps" by linarith
  then show "(relinked ps)[length ps := Some (r\<lparr>next_sub := None\<rparr>)] ! i = linked (ps @ [r]) ! i"
  proof cases
    case 1
    then show ?thesis using assms i by (simp add: length_relinked linked_nth)
  next
    case 2
    then show ?thesis using assms i by (simp add: length_relinked relinked_nth linked_nth_None)
  next
    case 3
    then show ?thesis using assms i
      by (simp add: length_relinked relinked_nth linked_nth nth_append)
  qed
qed

lemma relinked_cleared:
  assumes "length ps < N_SUBSETS" "ps \<noteq> []"
  shows "set_next ((relinked ps)[length ps := Some part]) (int (length ps) - 1) None
     = Inr ((linked ps)[length ps := Some part])"
proof -
  define j where "j = length ps - 1"
  have j: "length ps = Suc j" using assms unfolding j_def by (cases ps) auto
  have i: "int (length ps) - 1 = int j" using j by simp
  have r: "rd ((relinked ps)[length ps := Some part]) (int j)
      = Inr (Some ((ps ! j)\<lparr>next_sub := Some (Suc j)\<rparr>))"
    using assms j by (simp add: rd_def length_relinked relinked_nth)
  have "((relinked ps)[length ps := Some part])[j := Some ((ps ! j)\<lparr>next_sub := None\<rparr>)]
      = (linked ps)[length ps := Some part]"
  proof (rule nth_equalityI)
    show "length (((relinked ps)[length ps := Some part])[j := Some ((ps ! j)\<lparr>next_sub := None\<rparr>)])
      = length ((linked ps)[length ps := Some part])"
      using assms by (simp add: length_relinked length_linked)
  next
    fix i assume "i < length (((relinked ps)[length ps := Some part])[j := Some ((ps ! j)\<lparr>next_sub := None\<rparr>)])"
    then have i: "i < N_SUBSETS" using assms by (simp add: length_relinked)
    consider "i = Suc j" | "i > Suc j" | "i = j" | "i < j" by linarith
    then show "((relinked ps)[length ps := Some part])[j := Some ((ps ! j)\<lparr>next_sub := None\<rparr>)] ! i
       = (linked ps)[length ps := Some part] ! i"
    proof cases
      case 1 then show ?thesis using assms i j by (simp add: length_relinked length_linked)
    next
      case 2 then show ?thesis using assms i j
        by (simp add: length_relinked length_linked relinked_nth linked_nth_None)
    next
      case 3 then show ?thesis using assms i j
        by (simp add: length_relinked length_linked linked_nth)
    next
      case 4 then show ?thesis using assms i j
        by (simp add: length_relinked length_linked relinked_nth linked_nth)
    qed
  qed
  then show ?thesis unfolding i set_next_def r by simp
qed

lemma length_enc_subset: "36 \<le> length (enc_subset k r)"
  by (simp add: enc_subset_def enc_string_def length_enc_int)

lemma dat_loop_complete:
  assumes np: "c_str (deviceUuid data) \<noteq> ''placeholder''"
    and j: "length ps < N_SUBSETS" and sub: "subset data = linked ps"
    and v: "valid_subset (is_integer data) r"
  shows "dat_loop data (enc_subset (is_integer data) r @ rest) (length ps) out =
     (if rest \<noteq> [] then
        dat_loop (data\<lparr>subset := linked (ps @ [r]), n_sets := int (length ps) + 1\<rparr>) rest
          (length ps + 1) out
      else Inr (data\<lparr>subset := linked (ps @ [r]), n_sets := int (length ps) + 1\<rparr>, out))"
proof -
  have lk: "link_prev (subset data) (length ps) = Inr (relinked ps)"
    unfolding sub using j by (intro link_prev_linked) simp
  have rs: "read_subset (is_integer data) (enc_subset (is_integer data) r @ rest) =
     Inr (r\<lparr>next_sub := None\<rparr>, 9 + binL_len r + int_len r + cons_len r, rest)"
    by (rule read_subset_enc[OF v])
  show ?thesis
    by (subst dat_loop.simps) (use np j in \<open>simp add: lk rs linked_snoc[OF j] Let_def\<close>)
qed

lemma dat_loop_truncated:
  assumes np: "c_str (deviceUuid data) \<noteq> ''placeholder''"
    and j: "length ps < N_SUBSETS" and ne: "ps \<noteq> []" and sub: "subset data = linked ps"
    and v: "valid_subset (is_integer data) r"
    and t: "strict_prefix t (enc_subset (is_integer data) r)"
  shows "\<exists>partial. dat_loop data t (length ps) out =
     Inr (data\<lparr>subset := (linked ps)[length ps := Some partial], n_sets := int (length ps)\<rparr>,
          out @ [corrupt_message])"
proof -
  from read_subset_truncated[OF v t] obtain part cnt fp' where
    rs: "read_subset (is_integer data) t = Inr (part, cnt, fp')"
    and short: "cnt < cons_len part + int_len part + binL_len part + 9" by blast
  have lk: "link_prev (subset data) (length ps) = Inr (relinked ps)"
    unfolding sub using j by (intro link_prev_linked) simp
  have "dat_loop data t (length ps) out =
     Inr (data\<lparr>subset := (linked ps)[length ps := Some part], n_sets := int (length ps)\<rparr>,
          out @ [corrupt_message])"
    by (subst dat_loop.simps)
       (use np j short in \<open>simp add: lk rs relinked_cleared[OF j ne] Let_def\<close>)
  then show ?thesis by blast
qed

lemma dat_loop_no_room:
  "c_str (deviceUuid data) \<noteq> ''placeholder'' \<Longrightarrow> N_SUBSETS \<le> j \<Longrightarrow>
   dat_loop data fp j out = Inl OutOfBounds"
  by (subst dat_loop.simps) simp

lemma dat_loop_records:
  "c_str (deviceUuid data) \<noteq> ''placeholder'' \<Longrightarrow>
   list_all (valid_subset (is_integer data)) rs \<Longrightarrow> rs \<noteq> [] \<Longrightarrow>
   length ps + length rs \<le> N_SUBSETS \<Longrightarrow> subset data = linked ps \<Longrightarrow>
   dat_loop data (concat (map (enc_subset (is_integer data)) rs) @ rest) (length ps) out =
     (if rest \<noteq> [] then
        dat_loop (data\<lparr>subset := linked (ps @ rs), n_sets := int (length ps + length rs)\<rparr>)
          rest (length ps + length rs) out
      else Inr (data\<lparr>subset := linked (ps @ rs), n_sets := int (length ps + length rs)\<rparr>, out))"
proof (induction rs arbitrary: ps data)
  case Nil
  then show ?case by simp
next
  case (Cons r rs)
  have j: "length ps < N_SUBSETS" using Cons.prems by simp
  have v: "valid_subset (is_integer data) r" using Cons.prems by simp
  note step = dat_loop_complete[OF Cons.prems(1) j Cons.prems(5) v]
  let ?d = "data\<lparr>subset := linked (ps @ [r]), n_sets := int (length ps) + 1\<rparr>"
  show ?case
  proof (cases "rs = []")
    case True
    then show ?thesis using step[of rest out] by (simp add: add.commute)
  next
    case False
    have k: "is_integer ?d = is_integer data" by (simp add: is_integer_def)
    have ne: "concat (map (enc_subset (is_integer data)) rs) @ rest \<noteq> []"
      using False length_enc_subset[of "is_integer data" "hd rs"] by (cases rs) auto
    have "dat_loop data (concat (map (enc_subset (is_integer data)) (r # rs)) @ rest) (length ps) out
       = dat_loop ?d (concat (map (enc_subset (is_integer ?d)) rs) @ rest) (length (ps @ [r])) out"
      using step[of "concat (map (enc_subset (is_integer data)) rs) @ rest" out] ne
      by (simp add: k)
    also have "\<dots> = (if rest \<noteq> [] then
          dat_loop (?d\<lparr>subset := linked ((ps @ [r]) @ rs), n_sets := int (length (ps @ [r]) + length rs)\<rparr>)
            rest (length (ps @ [r]) + length rs) out
        else Inr (?d\<lparr>subset := linked ((ps @ [r]) @ rs), n_sets := int (length (ps @ [r]) + length rs)\<rparr>, out))"
      using Cons.prems False by (intro Cons.IH) (simp_all add: k)
    finally show ?thesis by simp
  qed
qed

lemma is_integer_update [simp]:
  "is_integer (d\<lparr>subset := x\<rparr>) = is_integer d" "is_integer (d\<lparr>n_sets := n\<rparr>) = is_integer d"
  by (simp_all add: is_integer_def)

lemma c_str_MAGIC: "c_str MAGIC = MAGIC"
  by (simp add: c_str_def MAGIC_def)

lemma read_dat_file_header:
  assumes "valid_header d"
  shows "read_dat_file (enc_header d @ rest) =
     dat_loop (d\<lparr>n_sets := 0, subset := linked []\<rparr>) rest 0 []"
proof -
  have lm: "length MAGIC = 17" by (simp add: MAGIC_def)
  have m: "fread_bytes 17 (MAGIC @ x) = (17, MAGIC, x)" for x
    using fread_bytes_full[of MAGIC x] unfolding lm by simp
  have v: "magic d = MAGIC" "rrd_device_name d = []"
    "devUuid_len d = int (length (deviceUuid d))" "is_int32 (int (length (deviceUuid d)))"
    "devVar_len d = int (length (deviceVar d))" "is_int32 (int (length (deviceVar d)))"
    "devSvc_len d = int (length (deviceSvc d))" "is_int32 (int (length (deviceSvc d)))"
    "sampleT_len d = int (length (sampleType d))" "is_int32 (int (length (sampleType d)))"
    using assms by (auto simp: valid_header_def)
  have e: "empty_dat\<lparr>magic := MAGIC, devUuid_len := int (length (deviceUuid d)),
        deviceUuid := deviceUuid d, devVar_len := int (length (deviceVar d)),
        deviceVar := deviceVar d, devSvc_len := int (length (deviceSvc d)),
        deviceSvc := deviceSvc d, sampleT_len := int (length (sampleType d)),
        sampleType := sampleType d\<rparr> = d\<lparr>n_sets := 0, subset := linked []\<rparr>"
    using v by (cases d) (simp add: empty_dat_def linked_Nil)
  show ?thesis
    unfolding read_dat_file_def enc_header_def append_assoc
    by (simp add: m c_str_MAGIC read_string_enc[OF v(4)] read_string_enc[OF v(6)]
        read_string_enc[OF v(8)] read_string_enc[OF v(10)] e)
qed

lemma read_dat_file_records:
  assumes "valid_header d" "c_str (deviceUuid d) \<noteq> ''placeholder''"
    and "rs \<noteq> []" "length rs \<le> N_SUBSETS" "list_all (valid_subset (is_integer d)) rs"
  shows "read_dat_file (enc_header d @ concat (map (enc_subset (is_integer d)) rs)) =
     Inr (d\<lparr>subset := linked rs, n_sets := int (length rs)\<rparr>, [])"
proof -
  let ?d = "d\<lparr>n_sets := 0, subset := linked []\<rparr>"
  have k: "is_integer ?d = is_integer d" by (simp add: is_integer_def)
  have "dat_loop ?d (concat (map (enc_subset (is_integer ?d)) rs) @ []) (length ([]::dat_sub_s list)) [] =
      Inr (?d\<lparr>subset := linked ([] @ rs), n_sets := int (length ([]::dat_sub_s list) + length rs)\<rparr>, [])"
    using assms by (subst dat_loop_records) (simp_all add: k)
  then show ?thesis
    using read_dat_file_header[OF assms(1), of "concat (map (enc_subset (is_integer d)) rs)"]
    by (simp add: k)
qed

lemma read_dat_file_fifth:
  assumes "valid_header d" "c_str (deviceUuid d) \<noteq> ''placeholder''"
    and "length rs = N_SUBSETS" "list_all (valid_subset (is_integer d)) rs" "rest \<noteq> []"
  shows "read_dat_file (enc_header d @ concat (map (enc_subset (is_integer d)) rs) @ rest)
     = Inl OutOfBounds"
proof -
  let ?d = "d\<lparr>n_sets := 0, subset := linked []\<rparr>"
  have k: "is_integer ?d = is_integer d" by (simp add: is_integer_def)
  have ne: "rs \<noteq> []" using assms(3) by (auto simp: N_SUBSETS_def)
  have "dat_loop ?d (concat (map (enc_subset (is_integer ?d)) rs) @ rest) (length ([]::dat_sub_s list)) [] =
      dat_loop (?d\<lparr>subset := linked ([] @ rs), n_sets := int (length ([]::dat_sub_s list) + length rs)\<rparr>)
        rest (length ([]::dat_sub_s list) + length rs) []"
    using assms ne by (subst dat_loop_records) (simp_all add: k)
  also have "\<dots> = Inl OutOfBounds" using assms by (intro dat_loop_no_room) simp_all
  finally show ?thesis
    using read_dat_file_header[OF assms(1), of "concat (map (enc_subset (is_integer d)) rs) @ rest"]
    by (simp add: k)
qed

lemma valid_header_device_of:
  "length uuid < 1000 \<Longrightarrow> length typ < 1000 \<Longrightarrow> valid_header (device_of uuid typ)"
  by (simp add: valid_header_def device_of_def empty_dat_def is_int32_def)

lemma valid_subset_named:
  "length a < 1000 \<Longrightarrow> length b < 1000 \<Longrightarrow> length c < 1000 \<Longrightarrow>
   valid_subset True (named (buffer_of 300 400 1 4) a b c)"
  "length a < 1000 \<Longrightarrow> length b < 1000 \<Longrightarrow> length c < 1000 \<Longrightarrow>
   valid_subset False (named (buffer_of 300 400 1 4) a b c)"
  by (simp_all add: valid_subset_def named_def buffer_of_def is_int32_def)

lemma uuid_device_of: "deviceUuid (device_of uuid typ) = uuid"
  by (simp add: device_of_def)

lemma c_str_abc: "c_str ''abc'' \<noteq> ''placeholder''"
  by (simp add: c_str_def)

lemma take_strict_prefix: "n < length xs \<Longrightarrow> strict_prefix (take n xs) xs"
proof -
  assume "n < length xs"
  then have "take n xs \<noteq> xs" by (metis length_take min.absorb4 nat_neq_iff)
  then show ?thesis by (simp add: strict_prefix_def take_is_prefix)
qed

lemma dat_loop_placeholder:
  "c_str (deviceUuid data) = ''placeholder'' \<Longrightarrow> dat_loop data fp j out = Inr (data, out)"
  by (subst dat_loop.simps) simp

text \<open>
  C6 (as amended). For a device id other than \<open>placeholder\<close> and between one and four
  buffer records, decoding the byte sequence of a header and its records recovers the
  device's strings and lengths, and for every record all its fields, for the
  \<open>Integer\<close> and for the \<open>Real\<close> layout; \<open>n_sets\<close> is the number of records, each
  record points to the next and the last to none, and nothing is printed.
\<close>

theorem read_dat_file_roundtrip:
  assumes "valid_header d" "c_str (deviceUuid d) \<noteq> ''placeholder''"
    and "rs \<noteq> []" "length rs \<le> N_SUBSETS" "list_all (valid_subset (is_integer d)) rs"
  shows "read_dat_file (enc_header d @ concat (map (enc_subset (is_integer d)) rs)) =
     Inr (d\<lparr>subset := linked rs, n_sets := int (length rs)\<rparr>, [])"
  using assms by (rule read_dat_file_records)

theorem read_dat_file_roundtrip_witness:
  "read_dat_file (enc_header (device_of ''abc'' ''integer'')
       @ concat (map (enc_subset True)
           [named (buffer_of 300 400 1 4) ''5m'' ''5yr'' ''avg'',
            named (buffer_of 300 400 1 4) ''1h'' ''10yr'' ''max'']))
     = Inr ((device_of ''abc'' ''integer'')
             \<lparr>subset := linked [named (buffer_of 300 400 1 4) ''5m'' ''5yr'' ''avg'',
                               named (buffer_of 300 400 1 4) ''1h'' ''10yr'' ''max''],
              n_sets := 2\<rparr>, [])
   \<and> read_dat_file (enc_header (device_of ''abc'' ''double'')
       @ concat (map (enc_subset False) [named (buffer_of 300 400 1 4) ''5m'' ''5yr'' ''avg'']))
     = Inr ((device_of ''abc'' ''double'')
             \<lparr>subset := linked [named (buffer_of 300 400 1 4) ''5m'' ''5yr'' ''avg''],
              n_sets := 1\<rparr>, [])"
proof -
  let ?di = "device_of ''abc'' ''integer''" and ?dd = "device_of ''abc'' ''double''"
  let ?b1 = "named (buffer_of 300 400 1 4) ''5m'' ''5yr'' ''avg''"
  let ?b2 = "named (buffer_of 300 400 1 4) ''1h'' ''10yr'' ''max''"
  have hi: "valid_header ?di" and hd: "valid_header ?dd"
    by (rule valid_header_device_of; simp)+
  have ui: "c_str (deviceUuid ?di) \<noteq> ''placeholder''"
    and ud: "c_str (deviceUuid ?dd) \<noteq> ''placeholder''"
    by (simp_all add: uuid_device_of c_str_abc)
  have ki: "is_integer ?di = True" and kd: "is_integer ?dd = False"
    using is_integer_device_of by simp_all
  have vi: "list_all (valid_subset (is_integer ?di)) [?b1, ?b2]"
    unfolding ki by (simp add: valid_subset_named)
  have vd: "list_all (valid_subset (is_integer ?dd)) [?b1]"
    unfolding kd by (simp add: valid_subset_named)
  have "read_dat_file (enc_header ?di @ concat (map (enc_subset (is_integer ?di)) [?b1, ?b2]))
      = Inr (?di\<lparr>subset := linked [?b1, ?b2], n_sets := int (length [?b1, ?b2])\<rparr>, [])"
    by (rule read_dat_file_roundtrip[OF hi ui _ _ vi]) (simp_all add: N_SUBSETS_def)
  moreover
  have "read_dat_file (enc_header ?dd @ concat (map (enc_subset (is_integer ?dd)) [?b1]))
      = Inr (?dd\<lparr>subset := linked [?b1], n_sets := int (length [?b1])\<rparr>, [])"
    by (rule read_dat_file_roundtrip[OF hd ud _ _ vd]) (simp_all add: N_SUBSETS_def)
  ultimately show ?thesis unfolding ki kd by simp
qed

lemma read_dat_file_placeholder:
  assumes "valid_header d" "c_str (deviceUuid d) = ''placeholder''"
  shows "read_dat_file (enc_header d @ rest) =
     Inr (d\<lparr>n_sets := 0, subset := [None, None, None, None]\<rparr>, [])"
proof -
  have p: "c_str (deviceUuid (d\<lparr>n_sets := 0, subset := linked []\<rparr>)) = ''placeholder''"
    using assms(2) by simp
  have l: "linked [] = [None, None, None, None]"
    by (simp add: linked_def N_SUBSETS_def numeral_eq_Suc)
  have "read_dat_file (enc_header d @ rest)
     = dat_loop (d\<lparr>n_sets := 0, subset := linked []\<rparr>) rest 0 []"
    by (rule read_dat_file_header[OF assms(1)])
  also have "\<dots> = Inr (d\<lparr>n_sets := 0, subset := linked []\<rparr>, [])"
    by (rule dat_loop_placeholder[OF p])
  finally show ?thesis by (simp add: l)
qed

lemma c_str_placeholder:
  "c_str ''placeholder'' = ''placeholder''"
  "c_str (''placeholder'' @ [CHR 0x00]) = ''placeholder''"
  by (simp_all add: c_str_def)

text \<open>
  C6 as the claim states it fails for a byte sequence whose device id is
  \<open>placeholder\<close> (with or without a terminating NUL byte in the file): the loop stops
  before it reads a record, so a record that follows the header is not recovered and
  the device has no buffers.
\<close>

theorem read_dat_file_placeholder_counterexample:
  "read_dat_file (enc_header (device_of ''placeholder'' ''integer'')
       @ enc_subset True (named (buffer_of 300 400 1 4) ''5m'' ''5yr'' ''avg''))
     = Inr ((device_of ''placeholder'' ''integer'')
             \<lparr>n_sets := 0, subset := [None, None, None, None]\<rparr>, [])
   \<and> read_dat_file (enc_header (device_of (''placeholder'' @ [CHR 0x00]) ''integer'')
       @ enc_subset True (named (buffer_of 300 400 1 4) ''5m'' ''5yr'' ''avg''))
     = Inr ((device_of (''placeholder'' @ [CHR 0x00]) ''integer'')
             \<lparr>n_sets := 0, subset := [None, None, None, None]\<rparr>, [])"
proof -
  have h: "valid_header (device_of ''placeholder'' ''integer'')"
    "valid_header (device_of (''placeholder'' @ [CHR 0x00]) ''integer'')"
    by (rule valid_header_device_of; simp)+
  have p: "c_str (deviceUuid (device_of ''placeholder'' ''integer'')) = ''placeholder''"
    "c_str (deviceUuid (device_of (''placeholder'' @ [CHR 0x00]) ''integer'')) = ''placeholder''"
    unfolding uuid_device_of by (rule c_str_placeholder)+
  show ?thesis
    using read_dat_file_placeholder[OF h(1) p(1)] read_dat_file_placeholder[OF h(2) p(2)]
    by simp
qed

text \<open>
  C7. A metadata stream whose records are decoded (the device id is not
  \<open>placeholder\<close>) and that holds one complete buffer record and a second record cut off
  before its end (at least one byte of it is there) decodes without failing: \<open>n_sets\<close>
  is \<open>1\<close>, the first slot holds the complete record, which points to no next record,
  the partial record is left behind in the second slot, outside the \<open>n_sets\<close> buffers,
  and the corruption message is printed.
\<close>

theorem read_dat_file_truncated_second:
  assumes "valid_header d" "c_str (deviceUuid d) \<noteq> ''placeholder''"
    and "valid_subset (is_integer d) r1" "valid_subset (is_integer d) r2"
    and "strict_prefix t (enc_subset (is_integer d) r2)" "t \<noteq> []"
  shows "\<exists>partial. read_dat_file (enc_header d @ enc_subset (is_integer d) r1 @ t) =
     Inr (d\<lparr>subset := [Some (r1\<lparr>next_sub := None\<rparr>), Some partial, None, None], n_sets := 1\<rparr>,
          [corrupt_message])"
proof -
  let ?d = "d\<lparr>n_sets := 0, subset := linked []\<rparr>"
  let ?d1 = "?d\<lparr>subset := linked ([] @ [r1]), n_sets := int (length ([]::dat_sub_s list)) + 1\<rparr>"
  have k: "is_integer ?d = is_integer d" "is_integer ?d1 = is_integer d" by (simp_all add: is_integer_def)
  have s1: "dat_loop ?d (enc_subset (is_integer d) r1 @ t) 0 [] = dat_loop ?d1 t 1 []"
    using dat_loop_complete[of ?d "[]" r1 t "[]"] assms by (simp add: k N_SUBSETS_def)
  from dat_loop_truncated[of ?d1 "[r1]" r2 t "[]"] assms
  obtain partial where s2: "dat_loop ?d1 t (length [r1]) [] =
     Inr (?d1\<lparr>subset := (linked [r1])[length [r1] := Some partial], n_sets := int (length [r1])\<rparr>,
          [] @ [corrupt_message])"
    by (auto simp: k N_SUBSETS_def)
  have l: "(linked [r1])[Suc 0 := Some partial]
      = [Some (r1\<lparr>next_sub := None\<rparr>), Some partial, None, None]"
    by (simp add: linked_def N_SUBSETS_def numeral_eq_Suc)
  show ?thesis
    using read_dat_file_header[OF assms(1), of "enc_subset (is_integer d) r1 @ t"] s1 s2
    by (intro exI[of _ partial]) (simp add: l)
qed

theorem read_dat_file_truncated_second_witness:
  "\<exists>partial. read_dat_file (enc_header (device_of ''abc'' ''integer'')
       @ enc_subset True (named (buffer_of 300 400 1 4) ''5m'' ''5yr'' ''avg'')
       @ take 20 (enc_subset True (named (buffer_of 300 400 1 4) ''1h'' ''10yr'' ''max'')))
     = Inr ((device_of ''abc'' ''integer'')
             \<lparr>subset := [Some ((named (buffer_of 300 400 1 4) ''5m'' ''5yr'' ''avg'')
                                 \<lparr>next_sub := None\<rparr>),
                         Some partial, None, None],
              n_sets := 1\<rparr>, [corrupt_message])"
proof -
  let ?d = "device_of ''abc'' ''integer''"
  let ?b1 = "named (buffer_of 300 400 1 4) ''5m'' ''5yr'' ''avg''"
  let ?b2 = "named (buffer_of 300 400 1 4) ''1h'' ''10yr'' ''max''"
  have h: "valid_header ?d" by (rule valid_header_device_of; simp)
  have u: "c_str (deviceUuid ?d) \<noteq> ''placeholder''" by (simp add: uuid_device_of c_str_abc)
  have k: "is_integer ?d = True" using is_integer_device_of by simp
  have v: "valid_subset (is_integer ?d) ?b1" "valid_subset (is_integer ?d) ?b2"
    unfolding k by (simp_all add: valid_subset_named)
  have len: "20 < length (enc_subset (is_integer ?d) ?b2)"
    using length_enc_subset[of "is_integer ?d" ?b2] by simp
  have sp: "strict_prefix (take 20 (enc_subset (is_integer ?d) ?b2)) (enc_subset (is_integer ?d) ?b2)"
    by (rule take_strict_prefix[OF len])
  have ne: "take 20 (enc_subset (is_integer ?d) ?b2) \<noteq> []" using len by auto
  from read_dat_file_truncated_second[OF h u v sp ne] show ?thesis unfolding k .
qed

text \<open>
  C4. The loop never compares \<open>j\<close> with \<open>N_SUBSETS\<close>. After four complete records
  with more bytes behind them it runs its body with \<open>j = 4\<close> and stores into
  \<open>data->subset[4]\<close>, outside the array of four pointers; having decoded four buffers
  is not a terminal state. A stream of exactly four records ends at the end of the
  file with \<open>n_sets = 4\<close>.
\<close>

theorem read_dat_file_fifth_record:
  "read_dat_file (enc_header (device_of ''abc'' ''integer'')
       @ concat (map (enc_subset True)
           (replicate 4 (named (buffer_of 300 400 1 4) ''5m'' ''5yr'' ''avg'')))
       @ enc_subset True (named (buffer_of 300 400 1 4) ''5m'' ''5yr'' ''avg''))
     = Inl OutOfBounds
   \<and> read_dat_file (enc_header (device_of ''abc'' ''integer'')
       @ concat (map (enc_subset True)
           (replicate 4 (named (buffer_of 300 400 1 4) ''5m'' ''5yr'' ''avg''))))
     = Inr ((device_of ''abc'' ''integer'')
             \<lparr>subset := linked (replicate 4 (named (buffer_of 300 400 1 4) ''5m'' ''5yr'' ''avg'')),
              n_sets := 4\<rparr>, [])"
proof -
  let ?d = "device_of ''abc'' ''integer''"
  let ?b = "named (buffer_of 300 400 1 4) ''5m'' ''5yr'' ''avg''"
  have h: "valid_header ?d" by (rule valid_header_device_of; simp)
  have u: "c_str (deviceUuid ?d) \<noteq> ''placeholder''" by (simp add: uuid_device_of c_str_abc)
  have k: "is_integer ?d = True" using is_integer_device_of by simp
  have v: "list_all (valid_subset (is_integer ?d)) (replicate 4 ?b)"
    unfolding k by (simp add: valid_subset_named list_all_length)
  have ne: "enc_subset True ?b \<noteq> []" using length_enc_subset[of True ?b] by auto
  have "read_dat_file (enc_header ?d @ concat (map (enc_subset (is_integer ?d)) (replicate 4 ?b))
      @ enc_subset True ?b) = Inl OutOfBounds"
    by (rule read_dat_file_fifth[OF h u _ v ne]) (simp add: N_SUBSETS_def)
  moreover
  have "read_dat_file (enc_header ?d @ concat (map (enc_subset (is_integer ?d)) (replicate 4 ?b)))
      = Inr (?d\<lparr>subset := linked (replicate 4 ?b), n_sets := int (length (replicate 4 ?b))\<rparr>, [])"
    by (rule read_dat_file_records[OF h u _ _ v]) (simp_all add: N_SUBSETS_def)
  ultimately show ?thesis unfolding k by simp
qed


end
